theory Spec2Isabelle
  imports Main "HOL-Library.Word" "HOL-Library.Multiset"
begin

section \<open>The Nessus client: data\<close>

text \<open>
  Go's \<open>int64\<close> is a 64-bit word. A Go result pair \<open>(value, err)\<close> is a sum, \<open>Inl err\<close>
  when \<open>err != nil\<close>; a lone \<open>error\<close> result is an option, \<open>None\<close> for \<open>nil\<close>. An error
  is its message: \<open>Error\<close> for a fixed message or one made by a library, and one
  constructor for each \<open>fmt.Errorf\<close> of this file that formats arguments.
\<close>

type_synonym int64 = "64 word"

datatype error =
    Error string
  | CouldNotAppendCerts string
  | UnexpectedStatusCode int "int list" string

text \<open>
  The declarations of \<open>PluginFamily\<close>, \<open>FamilyDetails\<close> and \<open>PluginDetails\<close> are not in
  \<open>nessie.go\<close>. \<open>AllPlugins\<close> reads \<open>family.ID\<close>, \<open>famDetails.Plugins\<close> and \<open>plugin.ID\<close>
  only, so these fields are all that is modelled; a \<open>PluginDetails\<close> value is a value of
  the type parameter \<open>'p\<close>. (The \<open>ID\<close> of an entry of \<open>Plugins\<close> is called \<open>PluginID\<close>,
  a record field name being global in HOL.)
\<close>

record PluginFamily =
  ID :: int64

record FamilyPlugin =
  PluginID :: int64

record FamilyDetails =
  Plugins :: "FamilyPlugin list"

text \<open>
  The three methods \<open>AllPlugins\<close> calls on its receiver are each a \<open>Request\<close> to the
  service and the decoding of its JSON reply into one of the types above. What a call
  returns is a parameter of the model. \<open>PluginFamilies\<close> is the result of the one listing
  call. \<open>FamilyDetails\<close> and \<open>PluginDetails\<close> decode into a pointer, and return one of
  \<^item> \<open>Inl err\<close>: \<open>return nil, err\<close>, the request or the decoding failed;
  \<^item> \<open>Inr None\<close>: \<open>return reply, nil\<close> with \<open>reply\<close> nil, which is what
    \<open>Decode(&reply)\<close> leaves when the body of a 200 reply is the JSON value \<open>null\<close>;
  \<^item> \<open>Inr (Some v)\<close>: \<open>return reply, nil\<close> with \<open>reply\<close> pointing to \<open>v\<close>.

  The service may answer two calls for the same ID differently, so the result is given
  per call, not per ID. A call is named by the loop indices the code discards with \<open>_\<close>:
  the \<open>FamilyDetails\<close> call of the goroutine spawned at index \<open>i\<close> of \<open>range families\<close>, and
  the \<open>PluginDetails\<close> call for the ID sent at index \<open>j\<close> of that goroutine's
  \<open>range famDetails.Plugins\<close>, named by the pair \<open>(i, j)\<close>. Each call is made at most once
  in a run, so every run of the program is a run for some such parameter.
\<close>

type_synonym tag = "nat \<times> nat"

record 'p nessus =
  PluginFamilies :: "error + PluginFamily list"
  FamilyDetails :: "nat \<Rightarrow> int64 \<Rightarrow> error + FamilyDetails option"
  PluginDetails :: "tag \<Rightarrow> int64 \<Rightarrow> error + 'p option"


section \<open>The client, its constructor and its requests\<close>

text \<open>
  The \<open>http.Client\<close> a \<open>nessusImpl\<close> holds, as \<open>newNessus\<close> configures it: the
  \<open>InsecureSkipVerify\<close> flag and the \<open>RootCAs\<close> of its TLS configuration (\<open>None\<close> for nil,
  the host's roots) and the fingerprints its \<open>DialTLS\<close> checks (\<open>None\<close> when \<open>DialTLS\<close> is
  nil).
\<close>

record http_client =
  InsecureSkipVerify :: bool
  RootCAs :: "string option"
  DialTLS :: "string list option"

record nessusImpl =
  client :: http_client
  authCookie :: string
  apiURL :: string
  accessKey :: string
  secretKey :: string
  apiToken :: string
  verbose :: bool

record http_request =
  Method :: string
  URL :: string
  Header :: "(string \<times> string) list"
  Body :: string

record http_response =
  StatusCode :: int
  RespBody :: string

record url =
  Prefix :: string
  Path :: string
  RawQuery :: string

text \<open>
  What the code does to the world outside its memory: the HTTP requests handed to the
  client, in order, and the lines written with package \<open>log\<close>.
\<close>

datatype log_line = LogString string | LogError error

record world =
  sent :: "http_request list"
  logged :: "log_line list"

definition log_Println :: "string \<Rightarrow> world \<Rightarrow> world" where
  "log_Println line w = w\<lparr>logged := logged w @ [LogString line]\<rparr>"

text \<open>
  The library functions and the network are parameters: what the file system holds, how
  a URL parses and prints, how a value marshals, and what the server replies to a request
  sent through a given client. \<open>'j\<close> is the type of the values given to \<open>json.Marshal\<close>.
\<close>

record 'j env =
  ReadFile :: "string \<Rightarrow> error + string"
  AppendCertsFromPEM :: "string \<Rightarrow> bool"
  ParseRequestURI :: "string \<Rightarrow> error + url"
  URL_String :: "url \<Rightarrow> string"
  Marshal :: "'j option \<Rightarrow> error + string"
  NewRequest :: "string \<Rightarrow> string \<Rightarrow> string \<Rightarrow> error + http_request"
  DumpRequest :: "http_request \<Rightarrow> error + string"
  DumpResponse :: "http_response \<Rightarrow> error + string"
  RoundTrip :: "http_client \<Rightarrow> http_request \<Rightarrow> error + http_response"
  ReadAll :: "http_response \<Rightarrow> error + string"
  FindString :: "string \<Rightarrow> string"

text \<open>\<open>client.Do(req)\<close> and \<open>client.Get(url)\<close>: the request goes out, the reply comes back.\<close>

definition client_Do ::
    "'j env \<Rightarrow> http_client \<Rightarrow> http_request \<Rightarrow> world \<Rightarrow> (error + http_response) \<times> world" where
  "client_Do e c req w = (RoundTrip e c req, w\<lparr>sent := sent w @ [req]\<rparr>)"

definition client_Get ::
    "'j env \<Rightarrow> http_client \<Rightarrow> string \<Rightarrow> world \<Rightarrow> (error + http_response) \<times> world" where
  "client_Get e c u w =
     client_Do e c \<lparr>Method = ''GET'', URL = u, Header = [], Body = ''''\<rparr> w"

text \<open>
  A call either returns or, through \<open>log.Fatal\<close>, logs the error and ends the process.
\<close>

datatype 'a outcome = Returns 'a | Exits

definition NessusApiTokenPath :: string where
  "NessusApiTokenPath = ''nessus6.js''"

definition getApiToken ::
    "'j env \<Rightarrow> string \<Rightarrow> http_client \<Rightarrow> world \<Rightarrow> string outcome \<times> world" where
  "getApiToken e u c w =
     (let nessusJs = u @ ''/'' @ NessusApiTokenPath in
      case client_Get e c nessusJs w of
        (Inl err, w1) \<Rightarrow> (Exits, w1\<lparr>logged := logged w1 @ [LogError err]\<rparr>)
      | (Inr resp, w1) \<Rightarrow>
          (case ReadAll e resp of
             Inl err \<Rightarrow> (Exits, w1\<lparr>logged := logged w1 @ [LogError err]\<rparr>)
           | Inr data \<Rightarrow> (Returns (FindString e data), w1)))"

text \<open>
  \<open>newNessus\<close>. The result \<open>Inl err\<close> is \<open>return nil, err\<close>; \<open>Inr n\<close> is
  \<open>return &nessusImpl{...}, nil\<close>. The fields the composite literal leaves out are zero.
  \<open>config\<close> is built while \<open>roots\<close> is still nil, and \<open>roots\<close> is assigned only afterwards,
  so \<open>config.RootCAs\<close> is nil on every path.
\<close>

definition newNessus ::
    "'j env \<Rightarrow> string \<Rightarrow> string \<Rightarrow> string \<Rightarrow> string \<Rightarrow> bool \<Rightarrow> bool \<Rightarrow> bool \<Rightarrow>
     string list \<Rightarrow> world \<Rightarrow> (error + nessusImpl) outcome \<times> world" where
  "newNessus e apiURL' caCertPath accessKey' secretKey' isUseApiKey ignoreSSLCertsErrors
       verifyCertFingerprint certFingerprints w =
     (let config = \<lparr>InsecureSkipVerify = ignoreSSLCertsErrors, RootCAs = None,
                     DialTLS = None\<rparr>;
          finish = (\<lambda>c.
            case getApiToken e apiURL' c w of
              (Exits, w1) \<Rightarrow> (Exits, w1)
            | (Returns token, w1) \<Rightarrow>
                (Returns (Inr \<lparr>client = c, authCookie = '''', apiURL = apiURL',
                                accessKey = accessKey', secretKey = secretKey',
                                apiToken = token, verbose = False\<rparr>), w1))
      in
      if length caCertPath \<noteq> 0
      then (case ReadFile e caCertPath of
              Inl err \<Rightarrow> (Returns (Inl err), w)
            | Inr rootPEM \<Rightarrow>
                if \<not> AppendCertsFromPEM e rootPEM
                then (Returns (Inl (CouldNotAppendCerts caCertPath)), w)
                else finish config)
      else if verifyCertFingerprint = True
      then (if length certFingerprints = 0
            then (Returns (Inl (Error
                    ''fingerprint verification enabled, fingerprint must not be empty'')), w)
            else finish (config\<lparr>DialTLS := Some certFingerprints\<rparr>))
      else finish config)"

definition NewFingerprintedNessus ::
    "'j env \<Rightarrow> string \<Rightarrow> string list \<Rightarrow> world \<Rightarrow> (error + nessusImpl) outcome \<times> world" where
  "NewFingerprintedNessus e apiURL' certFingerprints w =
     newNessus e apiURL' '''' '''' '''' False True True certFingerprints w"

text \<open>
  \<open>Request\<close>: build the URL (the resource is split at its first \<open>?\<close>), marshal the body,
  add the headers, send, and check the status against \<open>wantStatus\<close>. \<open>Header.Add\<close> stores a
  header under its canonical name, so \<open>X-ApiKeys\<close> and \<open>X-API-Token\<close> of the source go
  out as \<open>X-Apikeys\<close> and \<open>X-Api-Token\<close>; the other three names are canonical as written.
\<close>

definition set_resource :: "url \<Rightarrow> string \<Rightarrow> url" where
  "set_resource u resource =
     (if CHR ''?'' \<in> set resource
      then u\<lparr>Path := takeWhile (\<lambda>c. c \<noteq> CHR ''?'') resource,
              RawQuery := tl (dropWhile (\<lambda>c. c \<noteq> CHR ''?'') resource)\<rparr>
      else u\<lparr>Path := resource\<rparr>)"

definition add_headers :: "nessusImpl \<Rightarrow> http_request \<Rightarrow> http_request" where
  "add_headers n req =
     req\<lparr>Header := Header req
        @ [(''Content-Type'', ''application/json''), (''Accept'', ''application/json'')]
        @ (if authCookie n \<noteq> '''' then [(''X-Cookie'', ''token='' @ authCookie n)] else [])
        @ (if accessKey n \<noteq> '''' \<and> secretKey n \<noteq> ''''
           then [(''X-Apikeys'',
                  ''accessKey='' @ accessKey n @ ''; secretKey='' @ secretKey n)]
           else [])
        @ (if apiToken n \<noteq> '''' then [(''X-Api-Token'', apiToken n)] else [])\<rparr>"

definition check_status ::
    "'j env \<Rightarrow> int list \<Rightarrow> http_response \<Rightarrow> error + http_response" where
  "check_status e wantStatus resp =
     (if StatusCode resp \<in> set wantStatus then Inr resp
      else case ReadAll e resp of
             Inl err \<Rightarrow> Inl err
           | Inr body \<Rightarrow> Inl (UnexpectedStatusCode (StatusCode resp) wantStatus body))"

definition send_request ::
    "'j env \<Rightarrow> nessusImpl \<Rightarrow> http_request \<Rightarrow> int list \<Rightarrow> world \<Rightarrow>
     (error + http_response) \<times> world" where
  "send_request e n req wantStatus w =
     (case client_Do e (client n) req w of
        (Inl err, w1) \<Rightarrow> (Inl err, w1)
      | (Inr resp, w1) \<Rightarrow>
          (let w2 = (if verbose n
                     then (case DumpResponse e resp of
                             Inl err \<Rightarrow> w1
                           | Inr body \<Rightarrow> log_Println body w1)
                     else w1)
           in (check_status e wantStatus resp, w2)))"

definition Request ::
    "'j env \<Rightarrow> nessusImpl \<Rightarrow> string \<Rightarrow> string \<Rightarrow> 'j option \<Rightarrow> int list \<Rightarrow> world \<Rightarrow>
     (error + http_response) \<times> world" where
  "Request e n method resource js wantStatus w =
     (case ParseRequestURI e (apiURL n) of
        Inl err \<Rightarrow> (Inl err, w)
      | Inr u \<Rightarrow>
          (let urlStr = URL_String e (set_resource u resource) in
           case Marshal e js of
             Inl err \<Rightarrow> (Inl err, w)
           | Inr jb \<Rightarrow>
               (case NewRequest e method urlStr jb of
                  Inl err \<Rightarrow> (Inl err, w)
                | Inr req0 \<Rightarrow>
                    (let req = add_headers n req0 in
                     if verbose n
                     then (case DumpRequest e req of
                             Inl err \<Rightarrow> (Inl err, w)
                           | Inr db \<Rightarrow>
                               send_request e n req wantStatus
                                 (log_Println (''sending data: '' @ db) w))
                     else send_request e n req wantStatus w))))"

text \<open>
  \<open>Logout\<close>. The result is the returned error, the receiver after the call and the world
  after the call.
\<close>

definition StatusOK :: int where
  "StatusOK = 200"

definition Logout ::
    "'j env \<Rightarrow> nessusImpl \<Rightarrow> world \<Rightarrow> error option \<times> nessusImpl \<times> world" where
  "Logout e n w =
     (if authCookie n = ''''
      then (None, n, log_Println ''Not logged in, nothing to do to logout...'' w)
      else
        (let w1 = (if verbose n then log_Println ''Logout...'' w else w) in
         case Request e n ''DELETE'' ''/session'' None [StatusOK] w1 of
           (Inl err, w2) \<Rightarrow> (Some err, n, w2)
         | (Inr resp, w2) \<Rightarrow> (None, n\<lparr>authCookie := ''''\<rparr>, w2)))"


section \<open>AllPlugins: goroutines, channels and wait groups\<close>

text \<open>
  A buffered channel \<open>make(chan T, c)\<close>: its capacity, the queued values (oldest first)
  and whether \<open>close\<close> was called. A send on a closed channel panics, a send on a full
  one blocks, a receive on an empty open one blocks.
\<close>

record 'a chan =
  cap :: nat
  buf :: "'a list"
  closed :: bool

definition make_chan :: "nat \<Rightarrow> 'a chan" where
  "make_chan c = \<lparr>cap = c, buf = [], closed = False\<rparr>"

text \<open>
  Each goroutine is a program counter. The constructors name the statement the goroutine
  executes next and carry its local variables, and with them the loop indices that name
  its calls: a family goroutine knows its index \<open>i\<close> and the index \<open>j\<close> of its loop over the
  plugins, and an ID travels on \<open>idChan\<close> together with the pair \<open>(i, j)\<close> it was sent at.
  These indices are history variables: the code does not have them and no step depends
  on them but through the service's reply.
\<close>

text \<open>What \<open>AllPlugins\<close> returned: \<open>return nil, err\<close> or \<open>return plugChan, nil\<close>.\<close>

datatype returned = ReturnErr error | ReturnChan

datatype main_pc =
    MPluginFamilies
  | MSpawnFamilies nat "PluginFamily list"
  | MSpawnWorkers nat
  | MSpawnCoordinator
  | MReturned returned

text \<open>
  \<open>FNilDeref\<close>: \<open>FamilyDetails\<close> returned \<open>(nil, nil)\<close> and the goroutine is about to evaluate
  \<open>famDetails.Plugins\<close>. \<open>WNilDeref\<close>: \<open>PluginDetails\<close> returned \<open>(nil, nil)\<close> and the worker is
  about to evaluate \<open>*plugin\<close>. \<open>WPanicked\<close>: the worker has panicked there.
\<close>

datatype fam_pc =
    FFamilyDetails nat int64
  | FNilDeref
  | FRange nat nat "FamilyPlugin list"
  | FSend nat nat int64 "FamilyPlugin list"
  | FDeferred
  | FExited

datatype 'p worker_pc =
    WRange
  | WPluginDetails tag int64
  | WNilDeref
  | WSend 'p
  | WDone
  | WPanicked
  | WExited

text \<open>
  A worker also carries two history counters, which the code does not have: how many IDs
  it has received from \<open>idChan\<close> and how many times it has called \<open>wgp.Done()\<close>.
\<close>

record 'p worker =
  wpc :: "'p worker_pc"
  dequeued :: nat
  decremented :: nat

datatype coord_pc =
    CWaitFamilies
  | CCloseIds
  | CWaitPlugins
  | CClosePlugins
  | CExited

text \<open>
  The shared state. \<open>wgf\<close> and \<open>wgp\<close> are the counters of the two \<open>sync.WaitGroup\<close>s
  (\<open>Add\<close> adds to the counter and panics when it becomes negative, \<open>Done\<close> is \<open>Add(-1)\<close>,
  \<open>Wait\<close> blocks until it is zero). The counters are unbounded here; the library's are
  32 bits wide and would need 2^31 goroutines alive at once to overflow. \<open>received\<close> is
  what the caller has taken from the returned channel so far.

  \<open>panicked\<close> is set by a panic of the channel and wait-group operations themselves (a
  send on a closed channel, a second \<open>close\<close>, a negative counter). \<open>dying\<close> is set when a
  goroutine has panicked on a nil pointer: nothing recovers the panic, so the Go runtime
  ends the program, while the other goroutines go on until it has. \<open>terminated\<close> is set
  when it has ended the program.
\<close>

record 'p state =
  main :: main_pc
  wgf :: int
  wgp :: int
  idChan :: "(tag \<times> int64) chan"
  plugChan :: "'p chan"
  families :: "fam_pc list"
  workers :: "'p worker list"
  coordinator :: "coord_pc option"
  received :: "'p list"
  panicked :: bool
  dying :: bool
  terminated :: bool

text \<open>
  The state at the call of \<open>AllPlugins\<close>. Both channels are created with capacity 20
  (\<open>idChan\<close> only after the listing succeeded, and nothing touches it before).
\<close>

definition AllPlugins_start :: "'p state" where
  "AllPlugins_start =
     \<lparr>main = MPluginFamilies, wgf = 0, wgp = 0,
      idChan = make_chan 20, plugChan = make_chan 20,
      families = [], workers = [], coordinator = None,
      received = [], panicked = False, dying = False, terminated = False\<rparr>"

definition panic :: "'p state \<Rightarrow> 'p state" where
  "panic s = s\<lparr>panicked := True\<rparr>"

text \<open>
  The body of \<open>AllPlugins\<close> itself: list the families (an error returns at once), then
  \<open>wgf.Add(1)\<close> and spawn one goroutine per family, spawn ten workers, spawn the
  coordinator and return the channel.
\<close>

fun step_main :: "'p nessus \<Rightarrow> main_pc \<Rightarrow> 'p state \<Rightarrow> 'p state option" where
  "step_main n MPluginFamilies s =
     (case PluginFamilies n of
        Inl err \<Rightarrow> Some (s\<lparr>main := MReturned (ReturnErr err)\<rparr>)
      | Inr fams \<Rightarrow> Some (s\<lparr>main := MSpawnFamilies 0 fams\<rparr>))"
| "step_main n (MSpawnFamilies i []) s = Some (s\<lparr>main := MSpawnWorkers 0\<rparr>)"
| "step_main n (MSpawnFamilies i (family # rest)) s =
     Some (s\<lparr>main := MSpawnFamilies (i + 1) rest, wgf := wgf s + 1,
              families := families s @ [FFamilyDetails i (ID family)]\<rparr>)"
| "step_main n (MSpawnWorkers i) s =
     (if i < 10
      then Some (s\<lparr>main := MSpawnWorkers (i + 1),
                   workers := workers s @ [\<lparr>wpc = WRange, dequeued = 0, decremented = 0\<rparr>]\<rparr>)
      else Some (s\<lparr>main := MSpawnCoordinator\<rparr>))"
| "step_main n MSpawnCoordinator s =
     Some (s\<lparr>main := MReturned ReturnChan, coordinator := Some CWaitFamilies\<rparr>)"
| "step_main n (MReturned r) s = None"

text \<open>
  A family goroutine: \<open>defer wgf.Done()\<close>; fetch the family (an error returns); for each
  plugin \<open>wgp.Add(1)\<close> and then \<open>idChan <- plugin.ID\<close>. The result is the goroutine's next
  program counter and the shared state, or \<open>None\<close> when it is blocked or has exited.

  When the fetch returned \<open>(nil, nil)\<close> the test \<open>err != nil\<close> lets it through and
  \<open>famDetails.Plugins\<close> dereferences nil: the goroutine panics, its deferred \<open>wgf.Done()\<close>
  runs as it unwinds, and the program is dying.
\<close>

fun step_family :: "'p nessus \<Rightarrow> fam_pc \<Rightarrow> 'p state \<Rightarrow> (fam_pc \<times> 'p state) option" where
  "step_family n (FFamilyDetails i famID) s =
     (case FamilyDetails n i famID of
        Inl err \<Rightarrow> Some (FDeferred, s)
      | Inr None \<Rightarrow> Some (FNilDeref, s)
      | Inr (Some famDetails) \<Rightarrow> Some (FRange i 0 (Plugins famDetails), s))"
| "step_family n FNilDeref s =
     (if wgf s - 1 < 0 then Some (FNilDeref, panic s)
      else Some (FExited, s\<lparr>wgf := wgf s - 1, dying := True\<rparr>))"
| "step_family n (FRange i j []) s = Some (FDeferred, s)"
| "step_family n (FRange i j (plugin # rest)) s =
     Some (FSend i j (PluginID plugin) rest, s\<lparr>wgp := wgp s + 1\<rparr>)"
| "step_family n (FSend i j pid rest) s =
     (if closed (idChan s) then Some (FSend i j pid rest, panic s)
      else if length (buf (idChan s)) < cap (idChan s)
      then Some (FRange i (j + 1) rest,
                 s\<lparr>idChan := (idChan s)\<lparr>buf := buf (idChan s) @ [((i, j), pid)]\<rparr>\<rparr>)
      else None)"
| "step_family n FDeferred s =
     (if wgf s - 1 < 0 then Some (FDeferred, panic s)
      else Some (FExited, s\<lparr>wgf := wgf s - 1\<rparr>))"
| "step_family n FExited s = None"

text \<open>
  A worker: \<open>for id := range idChan\<close> receives an ID, or ends when the channel is closed
  and empty; fetch the plugin; on an error \<open>wgp.Done()\<close> and continue; otherwise
  \<open>plugChan <- *plugin\<close> and then \<open>wgp.Done()\<close>.

  When the fetch returned \<open>(nil, nil)\<close> the test \<open>err != nil\<close> lets it through and \<open>*plugin\<close>
  dereferences nil: the worker panics, without having called \<open>wgp.Done()\<close>, and the
  program is dying.
\<close>

fun step_worker :: "'p nessus \<Rightarrow> 'p worker_pc \<Rightarrow> 'p worker \<Rightarrow> 'p state \<Rightarrow>
    ('p worker \<times> 'p state) option" where
  "step_worker n WRange w s =
     (case buf (idChan s) of
        (t, pid) # rest \<Rightarrow>
          Some (w\<lparr>wpc := WPluginDetails t pid, dequeued := dequeued w + 1\<rparr>,
                s\<lparr>idChan := (idChan s)\<lparr>buf := rest\<rparr>\<rparr>)
      | [] \<Rightarrow> if closed (idChan s) then Some (w\<lparr>wpc := WExited\<rparr>, s) else None)"
| "step_worker n (WPluginDetails t pid) w s =
     (case PluginDetails n t pid of
        Inl err \<Rightarrow> Some (w\<lparr>wpc := WDone\<rparr>, s)
      | Inr None \<Rightarrow> Some (w\<lparr>wpc := WNilDeref\<rparr>, s)
      | Inr (Some plugin) \<Rightarrow> Some (w\<lparr>wpc := WSend plugin\<rparr>, s))"
| "step_worker n WNilDeref w s = Some (w\<lparr>wpc := WPanicked\<rparr>, s\<lparr>dying := True\<rparr>)"
| "step_worker n (WSend plugin) w s =
     (if closed (plugChan s) then Some (w, panic s)
      else if length (buf (plugChan s)) < cap (plugChan s)
      then Some (w\<lparr>wpc := WDone\<rparr>,
                 s\<lparr>plugChan := (plugChan s)\<lparr>buf := buf (plugChan s) @ [plugin]\<rparr>\<rparr>)
      else None)"
| "step_worker n WDone w s =
     (if wgp s - 1 < 0 then Some (w, panic s)
      else Some (w\<lparr>wpc := WRange, decremented := decremented w + 1\<rparr>,
                 s\<lparr>wgp := wgp s - 1\<rparr>))"
| "step_worker n WPanicked w s = None"
| "step_worker n WExited w s = None"

text \<open>
  The coordinator: \<open>wgf.Wait()\<close>, \<open>close(idChan)\<close>, \<open>wgp.Wait()\<close>, \<open>close(plugChan)\<close>.
  Closing a closed channel panics.
\<close>

fun step_coordinator :: "coord_pc \<Rightarrow> 'p state \<Rightarrow> 'p state option" where
  "step_coordinator CWaitFamilies s =
     (if wgf s = 0 then Some (s\<lparr>coordinator := Some CCloseIds\<rparr>) else None)"
| "step_coordinator CCloseIds s =
     (if closed (idChan s) then Some (panic s)
      else Some (s\<lparr>coordinator := Some CWaitPlugins,
                   idChan := (idChan s)\<lparr>closed := True\<rparr>\<rparr>))"
| "step_coordinator CWaitPlugins s =
     (if wgp s = 0 then Some (s\<lparr>coordinator := Some CClosePlugins\<rparr>) else None)"
| "step_coordinator CClosePlugins s =
     (if closed (plugChan s) then Some (panic s)
      else Some (s\<lparr>coordinator := Some CExited,
                   plugChan := (plugChan s)\<lparr>closed := True\<rparr>\<rparr>))"
| "step_coordinator CExited s = None"

text \<open>
  The caller, once it holds the returned channel, receives the oldest record from it.
\<close>

definition step_caller :: "'p state \<Rightarrow> 'p state option" where
  "step_caller s =
     (if main s = MReturned ReturnChan
      then (case buf (plugChan s) of
              [] \<Rightarrow> None
            | plugin # rest \<Rightarrow>
                Some (s\<lparr>plugChan := (plugChan s)\<lparr>buf := rest\<rparr>,
                         received := received s @ [plugin]\<rparr>))
      else None)"

text \<open>The Go runtime ends a dying program.\<close>

definition step_runtime :: "'p state \<Rightarrow> 'p state option" where
  "step_runtime s = (if dying s then Some (s\<lparr>terminated := True\<rparr>) else None)"

text \<open>
  One step of the program is one step of one goroutine, of the caller or of the runtime,
  chosen by the scheduler. The goroutines share nothing but the two channels and the two
  wait groups, whose operations are atomic, so a run is an interleaving of these steps.
  \<open>step\<close> is \<open>None\<close> when the chosen one does not exist, is blocked or has ended, after a
  panic of a channel or wait-group operation, and once the program is terminated.
\<close>

datatype tid = Main | Family nat | Worker nat | Coordinator | Caller | Runtime

definition step :: "'p nessus \<Rightarrow> tid \<Rightarrow> 'p state \<Rightarrow> 'p state option" where
  "step n t s =
     (if panicked s \<or> terminated s then None
      else case t of
        Main \<Rightarrow> step_main n (main s) s
      | Family i \<Rightarrow>
          (if i < length (families s)
           then (case step_family n (families s ! i) s of
                   None \<Rightarrow> None
                 | Some (pc, s') \<Rightarrow> Some (s'\<lparr>families := (families s')[i := pc]\<rparr>))
           else None)
      | Worker i \<Rightarrow>
          (if i < length (workers s)
           then (case step_worker n (wpc (workers s ! i)) (workers s ! i) s of
                   None \<Rightarrow> None
                 | Some (w, s') \<Rightarrow> Some (s'\<lparr>workers := (workers s')[i := w]\<rparr>))
           else None)
      | Coordinator \<Rightarrow>
          (case coordinator s of None \<Rightarrow> None | Some pc \<Rightarrow> step_coordinator pc s)
      | Caller \<Rightarrow> step_caller s
      | Runtime \<Rightarrow> step_runtime s)"

text \<open>A run under a schedule; \<open>None\<close> when the schedule asks for a step that cannot be taken.\<close>

fun exec :: "'p nessus \<Rightarrow> tid list \<Rightarrow> 'p state \<Rightarrow> 'p state option" where
  "exec n [] s = Some s"
| "exec n (t # ts) s = (case step n t s of None \<Rightarrow> None | Some s' \<Rightarrow> exec n ts s')"

text \<open>The runs of \<open>AllPlugins\<close>: every schedule from the state at the call.\<close>

definition AllPlugins :: "'p nessus \<Rightarrow> tid list \<Rightarrow> 'p state option" where
  "AllPlugins n sched = exec n sched AllPlugins_start"

text \<open>The records sent on \<open>plugChan\<close> so far, in order: those received and those still queued.\<close>

definition emitted :: "'p state \<Rightarrow> 'p list" where
  "emitted s = received s @ buf (plugChan s)"

text \<open>
  A run has come to its end when no goroutine, not the caller and not the runtime can
  take a step.
\<close>

definition ended :: "'p nessus \<Rightarrow> 'p state \<Rightarrow> bool" where
  "ended n s = (\<forall>t. step n t s = None)"

subsection \<open>What a run should emit\<close>

text \<open>
  The records a run has to emit, computed from the service's replies alone: for every
  listed family whose \<open>FamilyDetails\<close> call returns details, for every plugin ID in them
  whose \<open>PluginDetails\<close> call returns a record, that record. An ID listed twice counts
  twice. The functions take the loop index they start at.
\<close>

definition leaf_records :: "'p nessus \<Rightarrow> tag \<Rightarrow> int64 \<Rightarrow> 'p list" where
  "leaf_records n t pid =
     (case PluginDetails n t pid of
        Inl err \<Rightarrow> []
      | Inr None \<Rightarrow> []
      | Inr (Some plugin) \<Rightarrow> [plugin])"

fun leaves_records :: "'p nessus \<Rightarrow> nat \<Rightarrow> nat \<Rightarrow> FamilyPlugin list \<Rightarrow> 'p list" where
  "leaves_records n i j [] = []"
| "leaves_records n i j (plugin # rest) =
     leaf_records n (i, j) (PluginID plugin) @ leaves_records n i (j + 1) rest"

definition family_records :: "'p nessus \<Rightarrow> nat \<Rightarrow> int64 \<Rightarrow> 'p list" where
  "family_records n i famID =
     (case FamilyDetails n i famID of
        Inl err \<Rightarrow> []
      | Inr None \<Rightarrow> []
      | Inr (Some famDetails) \<Rightarrow> leaves_records n i 0 (Plugins famDetails))"

fun families_records :: "'p nessus \<Rightarrow> nat \<Rightarrow> PluginFamily list \<Rightarrow> 'p list" where
  "families_records n i [] = []"
| "families_records n i (family # rest) =
     family_records n i (ID family) @ families_records n (i + 1) rest"

definition expected_records :: "'p nessus \<Rightarrow> 'p list" where
  "expected_records n =
     (case PluginFamilies n of Inl err \<Rightarrow> [] | Inr fams \<Rightarrow> families_records n 0 fams)"


text \<open>
  The number of claim C1, in the words of the specification: over the listed families
  whose \<open>FamilyDetails\<close> fetch succeeds, the plugin IDs whose \<open>PluginDetails\<close> fetch succeeds.
  A fetch succeeds when it returns no error, which is the test the code makes.
\<close>

definition fetch_succeeds :: "'p nessus \<Rightarrow> tag \<Rightarrow> int64 \<Rightarrow> bool" where
  "fetch_succeeds n t pid = (case PluginDetails n t pid of Inl err \<Rightarrow> False | Inr reply \<Rightarrow> True)"

fun leaves_count :: "'p nessus \<Rightarrow> nat \<Rightarrow> nat \<Rightarrow> FamilyPlugin list \<Rightarrow> nat" where
  "leaves_count n i j [] = 0"
| "leaves_count n i j (plugin # rest) =
     (if fetch_succeeds n (i, j) (PluginID plugin) then 1 else 0)
       + leaves_count n i (j + 1) rest"

definition family_count :: "'p nessus \<Rightarrow> nat \<Rightarrow> int64 \<Rightarrow> nat" where
  "family_count n i famID =
     (case FamilyDetails n i famID of
        Inl err \<Rightarrow> 0
      | Inr None \<Rightarrow> 0
      | Inr (Some famDetails) \<Rightarrow> leaves_count n i 0 (Plugins famDetails))"

fun families_count :: "'p nessus \<Rightarrow> nat \<Rightarrow> PluginFamily list \<Rightarrow> nat" where
  "families_count n i [] = 0"
| "families_count n i (family # rest) =
     family_count n i (ID family) + families_count n (i + 1) rest"

definition expected_count :: "'p nessus \<Rightarrow> nat" where
  "expected_count n =
     (case PluginFamilies n of Inl err \<Rightarrow> 0 | Inr fams \<Rightarrow> families_count n 0 fams)"

text \<open>
  A service is free of nil replies when no call that a run makes returns \<open>(nil, nil)\<close>:
  none of the \<open>FamilyDetails\<close> calls for the listed families, and none of the
  \<open>PluginDetails\<close> calls for the plugins those list.
\<close>

definition leaf_nil_free :: "'p nessus \<Rightarrow> tag \<Rightarrow> int64 \<Rightarrow> bool" where
  "leaf_nil_free n t pid =
     (case PluginDetails n t pid of
        Inl err \<Rightarrow> True
      | Inr None \<Rightarrow> False
      | Inr (Some plugin) \<Rightarrow> True)"

fun leaves_nil_free :: "'p nessus \<Rightarrow> nat \<Rightarrow> nat \<Rightarrow> FamilyPlugin list \<Rightarrow> bool" where
  "leaves_nil_free n i j [] = True"
| "leaves_nil_free n i j (plugin # rest) =
     (leaf_nil_free n (i, j) (PluginID plugin) \<and> leaves_nil_free n i (j + 1) rest)"

definition family_nil_free :: "'p nessus \<Rightarrow> nat \<Rightarrow> int64 \<Rightarrow> bool" where
  "family_nil_free n i famID =
     (case FamilyDetails n i famID of
        Inl err \<Rightarrow> True
      | Inr None \<Rightarrow> False
      | Inr (Some famDetails) \<Rightarrow> leaves_nil_free n i 0 (Plugins famDetails))"

fun families_nil_free :: "'p nessus \<Rightarrow> nat \<Rightarrow> PluginFamily list \<Rightarrow> bool" where
  "families_nil_free n i [] = True"
| "families_nil_free n i (family # rest) =
     (family_nil_free n i (ID family) \<and> families_nil_free n (i + 1) rest)"

definition nil_free :: "'p nessus \<Rightarrow> bool" where
  "nil_free n =
     (case PluginFamilies n of Inl err \<Rightarrow> True | Inr fams \<Rightarrow> families_nil_free n 0 fams)"

subsection \<open>Invariants of the runs\<close>

text \<open>
  What each goroutine contributes to the two counters. A worker that panicked on a nil
  record never calls \<open>wgp.Done()\<close> for the ID it holds.
\<close>

fun fam_live :: "fam_pc \<Rightarrow> int" where
  "fam_live FExited = 0"
| "fam_live pc = 1"

fun fam_hold :: "fam_pc \<Rightarrow> int" where
  "fam_hold (FSend i j pid rest) = 1"
| "fam_hold pc = 0"

fun worker_hold :: "'p worker_pc \<Rightarrow> int" where
  "worker_hold WRange = 0"
| "worker_hold WExited = 0"
| "worker_hold pc = 1"

text \<open>The records each goroutine, and the queue of IDs, will still send on \<open>plugChan\<close>.\<close>

fun main_todo :: "'p nessus \<Rightarrow> main_pc \<Rightarrow> 'p multiset" where
  "main_todo n MPluginFamilies = mset (expected_records n)"
| "main_todo n (MSpawnFamilies i rest) = mset (families_records n i rest)"
| "main_todo n pc = {#}"

fun fam_todo :: "'p nessus \<Rightarrow> fam_pc \<Rightarrow> 'p multiset" where
  "fam_todo n (FFamilyDetails i famID) = mset (family_records n i famID)"
| "fam_todo n (FRange i j rest) = mset (leaves_records n i j rest)"
| "fam_todo n (FSend i j pid rest) =
     mset (leaf_records n (i, j) pid) + mset (leaves_records n i (j + 1) rest)"
| "fam_todo n pc = {#}"

definition queued_records :: "'p nessus \<Rightarrow> (tag \<times> int64) list \<Rightarrow> 'p list" where
  "queued_records n q = concat (map (\<lambda>(t, pid). leaf_records n t pid) q)"

fun worker_todo :: "'p nessus \<Rightarrow> 'p worker_pc \<Rightarrow> 'p multiset" where
  "worker_todo n (WPluginDetails t pid) = mset (leaf_records n t pid)"
| "worker_todo n (WSend plugin) = {#plugin#}"
| "worker_todo n pc = {#}"

definition todo :: "'p nessus \<Rightarrow> 'p state \<Rightarrow> 'p multiset" where
  "todo n s =
     main_todo n (main s) + sum_list (map (fam_todo n) (families s))
       + mset (queued_records n (buf (idChan s)))
       + sum_list (map (\<lambda>w. worker_todo n (wpc w)) (workers s))"

text \<open>
  Where the body of \<open>AllPlugins\<close> stands, and what exists by then: the number of family
  goroutines, the number of workers, and the coordinator.
\<close>

definition all_spawned :: "'p nessus \<Rightarrow> nat \<Rightarrow> bool" where
  "all_spawned n nf =
     (case PluginFamilies n of Inl err \<Rightarrow> False | Inr fams \<Rightarrow> nf = length fams)"

fun main_inv :: "'p nessus \<Rightarrow> main_pc \<Rightarrow> nat \<Rightarrow> nat \<Rightarrow> coord_pc option \<Rightarrow> bool" where
  "main_inv n MPluginFamilies nf nw c = (nf = 0 \<and> nw = 0 \<and> c = None)"
| "main_inv n (MReturned (ReturnErr err)) nf nw c =
     (PluginFamilies n = Inl err \<and> nf = 0 \<and> nw = 0 \<and> c = None)"
| "main_inv n (MSpawnFamilies i rest) nf nw c =
     ((\<exists>spawned. PluginFamilies n = Inr (spawned @ rest) \<and> nf = length spawned) \<and>
      i = nf \<and> nw = 0 \<and> c = None)"
| "main_inv n (MSpawnWorkers i) nf nw c =
     (all_spawned n nf \<and> i \<le> 10 \<and> nw = i \<and> c = None)"
| "main_inv n MSpawnCoordinator nf nw c = (all_spawned n nf \<and> nw = 10 \<and> c = None)"
| "main_inv n (MReturned ReturnChan) nf nw c = (all_spawned n nf \<and> nw = 10 \<and> c \<noteq> None)"

text \<open>
  Where the coordinator stands, and what it has established by then about the two
  counters and the two channels' \<open>closed\<close> flags.
\<close>

fun coord_inv :: "coord_pc option \<Rightarrow> int \<Rightarrow> int \<Rightarrow> bool \<Rightarrow> bool \<Rightarrow> bool" where
  "coord_inv None f p ci cp = (\<not> ci \<and> \<not> cp)"
| "coord_inv (Some CWaitFamilies) f p ci cp = (\<not> ci \<and> \<not> cp)"
| "coord_inv (Some CCloseIds) f p ci cp = (f = 0 \<and> \<not> ci \<and> \<not> cp)"
| "coord_inv (Some CWaitPlugins) f p ci cp = (f = 0 \<and> ci \<and> \<not> cp)"
| "coord_inv (Some CClosePlugins) f p ci cp = (f = 0 \<and> p = 0 \<and> ci \<and> \<not> cp)"
| "coord_inv (Some CExited) f p ci cp = (f = 0 \<and> p = 0 \<and> ci \<and> cp)"

definition counters_inv :: "'p state \<Rightarrow> bool" where
  "counters_inv s =
     (wgf s = sum_list (map fam_live (families s)) \<and>
      wgp s = int (length (buf (idChan s))) + sum_list (map fam_hold (families s))
                + sum_list (map (\<lambda>w. worker_hold (wpc w)) (workers s)))"

definition workers_inv :: "'p state \<Rightarrow> bool" where
  "workers_inv s =
     (\<forall>i < length (workers s).
        int (dequeued (workers s ! i)) =
          int (decremented (workers s ! i)) + worker_hold (wpc (workers s ! i)) \<and>
        (wpc (workers s ! i) = WExited \<longrightarrow> closed (idChan s) \<and> buf (idChan s) = []) \<and>
        (wpc (workers s ! i) = WPanicked \<longrightarrow> dying s))"

definition chans_inv :: "'p state \<Rightarrow> bool" where
  "chans_inv s =
     (cap (idChan s) = 20 \<and> length (buf (idChan s)) \<le> 20 \<and>
      cap (plugChan s) = 20 \<and> length (buf (plugChan s)) \<le> 20)"

definition run_inv :: "'p nessus \<Rightarrow> 'p state \<Rightarrow> bool" where
  "run_inv n s =
     (\<not> panicked s \<and>
      main_inv n (main s) (length (families s)) (length (workers s)) (coordinator s) \<and>
      coord_inv (coordinator s) (wgf s) (wgp s) (closed (idChan s)) (closed (plugChan s)) \<and>
      counters_inv s \<and> workers_inv s \<and> chans_inv s \<and>
      mset (expected_records n) = mset (emitted s) + todo n s)"

text \<open>
  A state from which no nil pointer is dereferenced: the program is not dying, and every
  call still to be made, by the body, by a family goroutine, for a queued ID or by a
  worker, returns an error or a value.
\<close>

fun main_safe :: "'p nessus \<Rightarrow> main_pc \<Rightarrow> bool" where
  "main_safe n MPluginFamilies = nil_free n"
| "main_safe n (MSpawnFamilies i rest) = families_nil_free n i rest"
| "main_safe n pc = True"

fun fam_safe :: "'p nessus \<Rightarrow> fam_pc \<Rightarrow> bool" where
  "fam_safe n (FFamilyDetails i famID) = family_nil_free n i famID"
| "fam_safe n FNilDeref = False"
| "fam_safe n (FRange i j rest) = leaves_nil_free n i j rest"
| "fam_safe n (FSend i j pid rest) =
     (leaf_nil_free n (i, j) pid \<and> leaves_nil_free n i (j + 1) rest)"
| "fam_safe n pc = True"

fun worker_safe :: "'p nessus \<Rightarrow> 'p worker_pc \<Rightarrow> bool" where
  "worker_safe n (WPluginDetails t pid) = leaf_nil_free n t pid"
| "worker_safe n WNilDeref = False"
| "worker_safe n WPanicked = False"
| "worker_safe n pc = True"

definition safe :: "'p nessus \<Rightarrow> 'p state \<Rightarrow> bool" where
  "safe n s =
     (\<not> dying s \<and> \<not> terminated s \<and> main_safe n (main s) \<and>
      list_all (fam_safe n) (families s) \<and>
      list_all (\<lambda>(t, pid). leaf_nil_free n t pid) (buf (idChan s)) \<and>
      list_all (\<lambda>w. worker_safe n (wpc w)) (workers s))"

text \<open>
  When no family fetch returns nil, no family goroutine dereferences nil, a dying program
  has a panicked worker, and only a dying program is terminated.
\<close>

definition worker_died :: "'p state \<Rightarrow> bool" where
  "worker_died s =
     (list_all (\<lambda>pc. pc \<noteq> FNilDeref) (families s) \<and>
      (dying s \<longrightarrow> list_ex (\<lambda>w. wpc w = WPanicked) (workers s)) \<and>
      (terminated s \<longrightarrow> dying s))"

text \<open>Goroutines counted by what they are doing.\<close>

fun fam_sending :: "fam_pc \<Rightarrow> bool" where
  "fam_sending (FSend i j pid rest) = True"
| "fam_sending pc = False"

fun worker_holding :: "'p worker_pc \<Rightarrow> bool" where
  "worker_holding WRange = False"
| "worker_holding WExited = False"
| "worker_holding pc = True"

fun worker_fetching :: "'p worker_pc \<Rightarrow> bool" where
  "worker_fetching (WPluginDetails t pid) = True"
| "worker_fetching pc = False"

text \<open>
  \<open>sending\<close>: family goroutines that have done \<open>wgp.Add(1)\<close> for an ID and not yet sent it.
  \<open>holding\<close>: workers that have received an ID and not yet called \<open>wgp.Done()\<close> for it
  (a worker that panicked on a nil record never will).
  \<open>in_flight\<close>: workers inside a \<open>PluginDetails\<close> call.
\<close>

definition sending :: "'p state \<Rightarrow> nat" where
  "sending s = length (filter fam_sending (families s))"

definition holding :: "'p state \<Rightarrow> nat" where
  "holding s = length (filter (\<lambda>w. worker_holding (wpc w)) (workers s))"

definition in_flight :: "'p state \<Rightarrow> nat" where
  "in_flight s = length (filter (\<lambda>w. worker_fetching (wpc w)) (workers s))"

subsection \<open>A concrete service\<close>

text \<open>
  Two families: family 1 lists the plugins 11, 12, 13 and family 2 lists 21, 22. The
  record of a plugin is its ID. In \<open>service_ok\<close> every call returns a value; in
  \<open>service_leaf_fails\<close> the fetch of plugin 12 returns an error; in \<open>service_null\<close> the
  service answers the request for plugin 12 with status 200 and the JSON body \<open>null\<close>, so
  that \<open>PluginDetails\<close> returns \<open>(nil, nil)\<close>; in \<open>service_family_null\<close> it answers the
  request for family 1 so.
\<close>

definition service_ok :: "int64 nessus" where
  "service_ok =
     \<lparr>PluginFamilies = Inr [\<lparr>ID = 1\<rparr>, \<lparr>ID = 2\<rparr>],
      FamilyDetails = (\<lambda>i famID.
        if famID = 1
        then Inr (Some \<lparr>Plugins = [\<lparr>PluginID = 11\<rparr>, \<lparr>PluginID = 12\<rparr>, \<lparr>PluginID = 13\<rparr>]\<rparr>)
        else if famID = 2
        then Inr (Some \<lparr>Plugins = [\<lparr>PluginID = 21\<rparr>, \<lparr>PluginID = 22\<rparr>]\<rparr>)
        else Inl (Error ''no such family'')),
      PluginDetails = (\<lambda>t pid. Inr (Some pid))\<rparr>"

definition service_leaf_fails :: "int64 nessus" where
  "service_leaf_fails =
     service_ok\<lparr>PluginDetails :=
       (\<lambda>t pid. if pid = 12 then Inl (Error ''no such plugin'') else Inr (Some pid))\<rparr>"

definition service_no_listing :: "int64 nessus" where
  "service_no_listing = service_ok\<lparr>PluginFamilies := Inl (Error ''connection refused'')\<rparr>"

definition service_null :: "int64 nessus" where
  "service_null =
     service_ok\<lparr>PluginDetails := (\<lambda>t pid. if pid = 12 then Inr None else Inr (Some pid))\<rparr>"

definition service_family_null :: "int64 nessus" where
  "service_family_null =
     service_ok\<lparr>FamilyDetails :=
       (\<lambda>i famID. if famID = 1 then Inr None else FamilyDetails service_ok i famID)\<rparr>"

text \<open>
  A service whose listing names family 1 twice and whose plugin 11 has a record only the
  first time it is asked for: replies belong to calls, not to IDs.
\<close>

definition service_twice :: "int64 nessus" where
  "service_twice =
     \<lparr>PluginFamilies = Inr [\<lparr>ID = 1\<rparr>, \<lparr>ID = 1\<rparr>],
      FamilyDetails = (\<lambda>i famID. Inr (Some \<lparr>Plugins = [\<lparr>PluginID = 11\<rparr>]\<rparr>)),
      PluginDetails = (\<lambda>t pid. Inr (Some (pid + of_nat (fst t))))\<rparr>"

text \<open>
  Schedules for these services: the body of \<open>AllPlugins\<close> runs to its return (sixteen
  steps for two families), then the two family goroutines, three of the workers, the
  coordinator and the caller interleave until the stream is closed and drained.
  \<open>sched_ok\<close> fits \<open>service_ok\<close>, \<open>sched_leaf_fails\<close> fits \<open>service_leaf_fails\<close>, and
  \<open>sched_family_fails\<close> fits \<open>service_ok\<close> with the fetch of family 1 failing.
\<close>

definition sched_ok :: "tid list" where
  "sched_ok =
     replicate 16 Main @
     [Family 1, Family 1, Family 1, Family 1, Worker 1, Family 1, Family 0, Worker 2,
      Worker 1, Family 1, Family 0, Family 1, Worker 1, Family 0, Worker 1, Worker 1,
      Worker 1, Worker 1, Family 0, Worker 2, Caller, Family 0, Family 0, Caller,
      Worker 1, Worker 2, Family 0, Worker 0, Worker 1, Worker 1, Worker 2, Family 0,
      Worker 0, Caller, Worker 0, Caller, Family 0, Worker 1, Worker 1, Caller, Worker 0,
      Coordinator, Coordinator, Coordinator, Coordinator]"

definition sched_leaf_fails :: "tid list" where
  "sched_leaf_fails =
     replicate 16 Main @
     [Family 0, Family 1, Family 0, Family 0, Worker 2, Family 0, Worker 2, Worker 2,
      Family 0, Family 0, Family 0, Worker 0, Caller, Family 0, Family 0, Worker 0,
      Worker 1, Worker 1, Family 1, Worker 2, Worker 1, Caller, Worker 0, Family 1,
      Worker 2, Worker 1, Family 1, Worker 2, Family 1, Worker 2, Worker 0, Worker 2,
      Caller, Worker 0, Worker 0, Family 1, Family 1, Caller, Coordinator, Worker 0,
      Coordinator, Coordinator, Coordinator]"


text \<open>
  A schedule for \<open>service_null\<close>: family 1 queues the plugins 11 and 12, worker 0 takes 11
  and worker 1 takes 12; worker 1 gets the nil record and dereferences it, worker 0 still
  sends the record of plugin 11, the caller receives it, and the runtime ends the
  program.
\<close>

definition sched_null :: "tid list" where
  "sched_null =
     replicate 16 Main @
     [Family 0, Family 0, Family 0, Family 0, Family 0, Worker 0, Worker 1, Worker 1,
      Worker 1, Worker 0, Worker 0, Caller, Runtime]"

text \<open>
  A schedule for \<open>service_family_null\<close>: the goroutine of family 1 gets the nil details and
  dereferences them, and the runtime ends the program.
\<close>

definition sched_family_null :: "tid list" where
  "sched_family_null = replicate 16 Main @ [Family 0, Family 0, Runtime]"

text \<open>
  A client that never logged in, on a machine without network: every library call
  fails. The world before the call has nothing sent and nothing logged.
\<close>

definition offline_env :: "unit env" where
  "offline_env =
     \<lparr>ReadFile = (\<lambda>path. Inl (Error ''no such file'')),
      AppendCertsFromPEM = (\<lambda>pem. False),
      ParseRequestURI = (\<lambda>u. Inl (Error ''invalid URI for request'')),
      URL_String = (\<lambda>u. Prefix u @ Path u),
      Marshal = (\<lambda>js. Inr ''null''),
      NewRequest = (\<lambda>m u b. Inr \<lparr>Method = m, URL = u, Header = [], Body = b\<rparr>),
      DumpRequest = (\<lambda>req. Inr (Method req @ '' '' @ URL req)),
      DumpResponse = (\<lambda>resp. Inr (RespBody resp)),
      RoundTrip = (\<lambda>c req. Inl (Error ''connection refused'')),
      ReadAll = (\<lambda>resp. Inr (RespBody resp)),
      FindString = (\<lambda>data. '''')\<rparr>"

definition anonymous_client :: nessusImpl where
  "anonymous_client =
     \<lparr>client = \<lparr>InsecureSkipVerify = True, RootCAs = None, DialTLS = None\<rparr>,
      authCookie = '''', apiURL = ''https://nessus.example:8834'', accessKey = '''',
      secretKey = '''', apiToken = '''', verbose = True\<rparr>"

definition quiet_world :: world where
  "quiet_world = \<lparr>sent = [], logged = []\<rparr>"

text \<open>What \<open>service_ok\<close> lists for the families at the indices 0 and 1.\<close>

definition listed :: "nat \<Rightarrow> FamilyDetails" where
  "listed i =
     (if i = 0
      then \<lparr>Plugins = [\<lparr>PluginID = 11\<rparr>, \<lparr>PluginID = 12\<rparr>, \<lparr>PluginID = 13\<rparr>]\<rparr>
      else \<lparr>Plugins = [\<lparr>PluginID = 21\<rparr>, \<lparr>PluginID = 22\<rparr>]\<rparr>)"

text \<open>
  The number of steps the body of \<open>AllPlugins\<close> still takes before it returns: one for the
  listing, one per family to spawn and one to leave that loop, one per worker to spawn
  and one to leave that loop, one for the coordinator and the return.
\<close>

fun main_steps_left :: "'p nessus \<Rightarrow> main_pc \<Rightarrow> nat" where
  "main_steps_left n MPluginFamilies =
     (case PluginFamilies n of Inl err \<Rightarrow> 1 | Inr fams \<Rightarrow> length fams + 14)"
| "main_steps_left n (MSpawnFamilies i rest) = length rest + 13"
| "main_steps_left n (MSpawnWorkers i) = (10 - i) + 2"
| "main_steps_left n MSpawnCoordinator = 1"
| "main_steps_left n (MReturned r) = 0"

subsection \<open>How long a run can be\<close>

text \<open>
  An upper bound on the steps each goroutine, and the caller on its behalf, can still
  take. An ID costs its family two steps (\<open>wgp.Add(1)\<close> and the send) and, once queued,
  five more: a worker receives it, fetches it, sends the record and calls \<open>wgp.Done()\<close>,
  and the caller receives the record. A worker ends with one more step, the coordinator
  takes four, and the runtime takes one when the program is dying.
\<close>

fun fam_left :: "'p nessus \<Rightarrow> fam_pc \<Rightarrow> nat" where
  "fam_left n (FFamilyDetails i famID) =
     1 + (case FamilyDetails n i famID of
            Inl err \<Rightarrow> 1
          | Inr None \<Rightarrow> 1
          | Inr (Some famDetails) \<Rightarrow> 7 * length (Plugins famDetails) + 2)"
| "fam_left n FNilDeref = 1"
| "fam_left n (FRange i j rest) = 7 * length rest + 2"
| "fam_left n (FSend i j pid rest) = 6 + (7 * length rest + 2)"
| "fam_left n FDeferred = 1"
| "fam_left n FExited = 0"

fun worker_left :: "'p worker_pc \<Rightarrow> nat" where
  "worker_left WRange = 1"
| "worker_left (WPluginDetails t pid) = 5"
| "worker_left WNilDeref = 1"
| "worker_left (WSend plugin) = 4"
| "worker_left WDone = 2"
| "worker_left WPanicked = 0"
| "worker_left WExited = 0"

fun coord_left :: "coord_pc option \<Rightarrow> nat" where
  "coord_left None = 0"
| "coord_left (Some CWaitFamilies) = 4"
| "coord_left (Some CCloseIds) = 3"
| "coord_left (Some CWaitPlugins) = 2"
| "coord_left (Some CClosePlugins) = 1"
| "coord_left (Some CExited) = 0"

fun families_left :: "'p nessus \<Rightarrow> nat \<Rightarrow> PluginFamily list \<Rightarrow> nat" where
  "families_left n i [] = 0"
| "families_left n i (family # rest) =
     1 + fam_left n (FFamilyDetails i (ID family)) + families_left n (i + 1) rest"

fun main_left :: "'p nessus \<Rightarrow> main_pc \<Rightarrow> nat" where
  "main_left n MPluginFamilies =
     1 + (case PluginFamilies n of
            Inl err \<Rightarrow> 0
          | Inr fams \<Rightarrow> families_left n 0 fams + 27)"
| "main_left n (MSpawnFamilies i rest) = families_left n i rest + 27"
| "main_left n (MSpawnWorkers i) = 2 * (10 - i) + 6"
| "main_left n MSpawnCoordinator = 5"
| "main_left n (MReturned r) = 0"

definition steps_left :: "'p nessus \<Rightarrow> 'p state \<Rightarrow> nat" where
  "steps_left n s =
     main_left n (main s) + sum_list (map (fam_left n) (families s))
       + 5 * length (buf (idChan s))
       + sum_list (map (\<lambda>w. worker_left (wpc w)) (workers s))
       + length (buf (plugChan s)) + coord_left (coordinator s)
       + (if terminated s then 0 else 1)"

text \<open>\<open>sched_leaf_fails\<close> followed by the ten workers leaving their loops.\<close>

definition sched_leaf_fails_end :: "tid list" where
  "sched_leaf_fails_end = sched_leaf_fails @ map Worker [0..<10]"

section \<open>Proofs\<close>

subsection \<open>Sums over the goroutine lists\<close>

lemma sum_list_map_update_int:
  "i < length xs \<Longrightarrow> sum_list (map f (xs[i := y])) = sum_list (map f xs) - f (xs ! i) + (f y :: int)"
  by (induction xs arbitrary: i) (auto split: nat.splits)

lemma sum_list_map_update_mset:
  "i < length xs \<Longrightarrow> sum_list (map f (xs[i := y])) + f (xs ! i) = sum_list (map f xs) + (f y :: 'a multiset)"
  by (induction xs arbitrary: i) (auto split: nat.splits)

lemma sum_list_nonneg_zero:
  "sum_list (map f xs) = (0::int) \<Longrightarrow> (\<And>x. 0 \<le> f x) \<Longrightarrow> i < length xs \<Longrightarrow> f (xs ! i) = 0"
proof (induction xs arbitrary: i)
  case Nil then show ?case by simp
next
  case (Cons x xs)
  have "0 \<le> sum_list (map f xs)" using Cons.prems(2) by (induction xs) auto
  with Cons.prems(1) Cons.prems(2)[of x] have "f x = 0" "sum_list (map f xs) = 0"
    by auto
  with Cons show ?case by (cases i) auto
qed

lemma queued_records_simps [simp]:
  "queued_records n [] = []"
  "queued_records n ((t, pid) # q) = leaf_records n t pid @ queued_records n q"
  "queued_records n (q @ q') = queued_records n q @ queued_records n q'"
  by (simp_all add: queued_records_def)

lemmas inv_defs = run_inv_def counters_inv_def workers_inv_def chans_inv_def emitted_def todo_def

lemma fam_live_nonneg: "0 \<le> fam_live pc"
  by (cases pc) auto

lemma worker_hold_nonneg: "0 \<le> worker_hold pc"
  by (cases pc) auto

lemma fam_hold_nonneg: "0 \<le> fam_hold pc"
  by (cases pc) auto

lemma sum_list_map_release:
  "i < length xs \<Longrightarrow> f (xs ! i) = f y + (d :: 'a multiset) \<Longrightarrow>
     sum_list (map f xs) = sum_list (map f (xs[i := y])) + d"
  using sum_list_map_update_mset[of i xs f y] by (simp add: ac_simps)

lemma sum_list_map_acquire:
  "i < length xs \<Longrightarrow> f y = f (xs ! i) + (d :: 'a multiset) \<Longrightarrow>
     sum_list (map f (xs[i := y])) = sum_list (map f xs) + d"
  using sum_list_map_update_mset[of i xs f y] by (simp add: ac_simps)

subsection \<open>The invariant holds in every run\<close>

lemma main_Returned_if_coordinator:
  "main_inv n pc nf nw (Some c) \<Longrightarrow> pc = MReturned ReturnChan"
  by (cases "(n, pc, nf, nw, Some c)" rule: main_inv.cases) auto

lemma nth_le_sum_list_int:
  "i < length xs \<Longrightarrow> (\<And>x. 0 \<le> f x) \<Longrightarrow> f (xs ! i) \<le> (sum_list (map f xs) :: int)"
proof (induction xs arbitrary: i)
  case Nil then show ?case by simp
next
  case (Cons x xs)
  have "0 \<le> sum_list (map f xs)" using Cons.prems(2) by (induction xs) auto
  with Cons show ?case using Cons.prems(2)[of x] by (cases i) (auto simp: add_increasing)
qed

lemma inv_start: "run_inv n AllPlugins_start"
  by (simp add: inv_defs AllPlugins_start_def make_chan_def)

lemma inv_step_main:
  assumes "run_inv n s" "step_main n (main s) s = Some s'"
  shows "run_inv n s'"
  using assms(2,1)
  apply (cases rule: step_main.elims)
  apply (auto simp: inv_defs expected_records_def all_spawned_def nth_append split: sum.splits if_splits)
  done

lemma live_family_coordinator:
  assumes I: "run_inv n s" and i: "i < length (families s)" and l: "families s ! i \<noteq> FExited"
  shows "coordinator s = None \<or> coordinator s = Some CWaitFamilies"
proof -
  have "fam_live (families s ! i) = 1" using l by (cases "families s ! i") auto
  moreover have "fam_live (families s ! i) \<le> wgf s"
    using I nth_le_sum_list_int[OF i, of fam_live] by (simp add: inv_defs fam_live_nonneg)
  ultimately have "wgf s \<noteq> 0" by simp
  with I show ?thesis
    by (cases "(coordinator s, wgf s, wgp s, closed (idChan s), closed (plugChan s))" rule: coord_inv.cases)
      (auto simp: run_inv_def)
qed

lemma inv_step_family:
  assumes I: "run_inv n s" and i: "i < length (families s)"
    and st: "step_family n (families s ! i) s = Some (pc, s')"
  shows "run_inv n (s'\<lparr>families := (families s')[i := pc]\<rparr>)"
proof (cases "families s ! i")
  case (FFamilyDetails k famID)
  show ?thesis
  proof (cases "FamilyDetails n k famID")
    case (Inl err)
    with FFamilyDetails st have eq: "pc = FDeferred" "s' = s" by auto
    have "sum_list (map (fam_todo n) (families s)) =
          sum_list (map (fam_todo n) ((families s)[i := FDeferred])) + {#}"
      using i FFamilyDetails Inl by (intro sum_list_map_release) (simp_all add: family_records_def)
    with I i FFamilyDetails show ?thesis
      unfolding eq by (auto simp add: inv_defs sum_list_map_update_int)
  next
    case (Inr reply)
    show ?thesis
    proof (cases reply)
      case None
      with Inr FFamilyDetails st have eq: "pc = FNilDeref" "s' = s" by auto
      have "sum_list (map (fam_todo n) (families s)) =
            sum_list (map (fam_todo n) ((families s)[i := FNilDeref])) + {#}"
        using i FFamilyDetails Inr None
        by (intro sum_list_map_release) (simp_all add: family_records_def)
      with I i FFamilyDetails show ?thesis
        unfolding eq by (auto simp add: inv_defs sum_list_map_update_int)
    next
      case (Some famDetails)
      with Inr FFamilyDetails st have eq: "pc = FRange k 0 (Plugins famDetails)" "s' = s" by auto
      have "sum_list (map (fam_todo n) (families s)) =
            sum_list (map (fam_todo n) ((families s)[i := FRange k 0 (Plugins famDetails)])) + {#}"
        using i FFamilyDetails Inr Some
        by (intro sum_list_map_release) (simp_all add: family_records_def)
      with I i FFamilyDetails show ?thesis
        unfolding eq by (auto simp add: inv_defs sum_list_map_update_int)
    qed
  qed
next
  case FNilDeref
  have c: "coordinator s = None \<or> coordinator s = Some CWaitFamilies"
    using live_family_coordinator[OF I i] FNilDeref by simp
  have "fam_live (families s ! i) \<le> wgf s"
    using I nth_le_sum_list_int[OF i, of fam_live] by (simp add: inv_defs fam_live_nonneg)
  with FNilDeref have pos: "1 \<le> wgf s" by simp
  with FNilDeref st have eq: "pc = FExited" "s' = s\<lparr>wgf := wgf s - 1, dying := True\<rparr>"
    by (auto split: if_splits)
  have "sum_list (map (fam_todo n) (families s)) =
        sum_list (map (fam_todo n) ((families s)[i := FExited])) + {#}"
    using i FNilDeref by (intro sum_list_map_release) simp_all
  with I i FNilDeref c show ?thesis
    unfolding eq by (auto simp add: inv_defs sum_list_map_update_int)
next
  case (FRange k j plugins)
  show ?thesis
  proof (cases plugins)
    case Nil
    with FRange st have eq: "pc = FDeferred" "s' = s" by auto
    have "sum_list (map (fam_todo n) (families s)) =
          sum_list (map (fam_todo n) ((families s)[i := FDeferred])) + {#}"
      using i FRange Nil by (intro sum_list_map_release) simp_all
    with I i FRange show ?thesis
      unfolding eq by (auto simp add: inv_defs sum_list_map_update_int)
  next
    case (Cons plugin rest)
    with FRange st have eq: "pc = FSend k j (PluginID plugin) rest" "s' = s\<lparr>wgp := wgp s + 1\<rparr>"
      by auto
    have "sum_list (map (fam_todo n) (families s)) =
          sum_list (map (fam_todo n) ((families s)[i := FSend k j (PluginID plugin) rest])) + {#}"
      using i FRange Cons by (intro sum_list_map_release) simp_all
    moreover have "coordinator s = None \<or> coordinator s = Some CWaitFamilies"
      using live_family_coordinator[OF I i] FRange by simp
    ultimately show ?thesis using I i FRange
      unfolding eq by (auto simp add: inv_defs sum_list_map_update_int)
  qed
next
  case (FSend k j pid rest)
  have c: "coordinator s = None \<or> coordinator s = Some CWaitFamilies"
    using live_family_coordinator[OF I i] FSend by simp
  with I have nc: "\<not> closed (idChan s)" by (auto simp: run_inv_def)
  with FSend st have room: "length (buf (idChan s)) < cap (idChan s)"
    and eq: "pc = FRange k (j + 1) rest"
      "s' = s\<lparr>idChan := (idChan s)\<lparr>buf := buf (idChan s) @ [((k, j), pid)]\<rparr>\<rparr>"
    by (auto split: if_splits)
  have "sum_list (map (fam_todo n) (families s)) =
        sum_list (map (fam_todo n) ((families s)[i := FRange k (j + 1) rest]))
          + mset (leaf_records n (k, j) pid)"
    using i FSend by (intro sum_list_map_release) simp_all
  with I i FSend c nc room show ?thesis
    unfolding eq by (auto simp add: inv_defs sum_list_map_update_int)
next
  case FDeferred
  have c: "coordinator s = None \<or> coordinator s = Some CWaitFamilies"
    using live_family_coordinator[OF I i] FDeferred by simp
  have "fam_live (families s ! i) \<le> wgf s"
    using I nth_le_sum_list_int[OF i, of fam_live] by (simp add: inv_defs fam_live_nonneg)
  with FDeferred have pos: "1 \<le> wgf s" by simp
  with FDeferred st have eq: "pc = FExited" "s' = s\<lparr>wgf := wgf s - 1\<rparr>"
    by (auto split: if_splits)
  have "sum_list (map (fam_todo n) (families s)) =
        sum_list (map (fam_todo n) ((families s)[i := FExited])) + {#}"
    using i FDeferred by (intro sum_list_map_release) simp_all
  with I i FDeferred c show ?thesis
    unfolding eq by (auto simp add: inv_defs sum_list_map_update_int)
next
  case FExited
  with st show ?thesis by simp
qed

lemma held_leaf_counted:
  assumes I: "run_inv n s" and i: "i < length (workers s)"
  shows "worker_hold (wpc (workers s ! i)) \<le> wgp s"
proof -
  have "worker_hold (wpc (workers s ! i)) \<le> sum_list (map (\<lambda>w. worker_hold (wpc w)) (workers s))"
    using nth_le_sum_list_int[OF i, of "\<lambda>w. worker_hold (wpc w)"] by (simp add: worker_hold_nonneg)
  moreover have "0 \<le> sum_list (map fam_hold (families s))"
    by (rule sum_list_nonneg) (auto simp: fam_hold_nonneg)
  ultimately show ?thesis using I by (simp add: inv_defs)
qed

lemma inv_step_worker:
  assumes I: "run_inv n s" and i: "i < length (workers s)"
    and st: "step_worker n (wpc (workers s ! i)) (workers s ! i) s = Some (w, s')"
  shows "run_inv n (s'\<lparr>workers := (workers s')[i := w]\<rparr>)"
proof (cases "wpc (workers s ! i)")
  case WRange
  show ?thesis
  proof (cases "buf (idChan s)")
    case Nil
    with WRange st have cl: "closed (idChan s)"
      and eq: "w = (workers s ! i)\<lparr>wpc := WExited\<rparr>" "s' = s"
      by (auto split: if_splits)
    have "sum_list (map (\<lambda>w. worker_todo n (wpc w)) (workers s)) =
          sum_list (map (\<lambda>w. worker_todo n (wpc w)) ((workers s)[i := (workers s ! i)\<lparr>wpc := WExited\<rparr>])) + {#}"
      using i WRange by (intro sum_list_map_release) simp_all
    with I i WRange Nil cl show ?thesis
      unfolding eq by (auto simp add: inv_defs sum_list_map_update_int nth_list_update)
  next
    case (Cons x rest)
    obtain t pid where x: "x = (t, pid)" by (cases x)
    with Cons WRange st
    have eq: "w = (workers s ! i)\<lparr>wpc := WPluginDetails t pid, dequeued := dequeued (workers s ! i) + 1\<rparr>"
      "s' = s\<lparr>idChan := (idChan s)\<lparr>buf := rest\<rparr>\<rparr>"
      by auto
    have "sum_list (map (\<lambda>w. worker_todo n (wpc w))
            ((workers s)[i := (workers s ! i)\<lparr>wpc := WPluginDetails t pid, dequeued := dequeued (workers s ! i) + 1\<rparr>])) =
          sum_list (map (\<lambda>w. worker_todo n (wpc w)) (workers s)) + mset (leaf_records n t pid)"
      using i WRange by (intro sum_list_map_acquire) simp_all
    with I i WRange Cons x show ?thesis
      unfolding eq by (auto simp add: inv_defs sum_list_map_update_int nth_list_update)
  qed
next
  case (WPluginDetails t pid)
  show ?thesis
  proof (cases "PluginDetails n t pid")
    case (Inl err)
    with WPluginDetails st have eq: "w = (workers s ! i)\<lparr>wpc := WDone\<rparr>" "s' = s" by auto
    have "sum_list (map (\<lambda>w. worker_todo n (wpc w)) (workers s)) =
          sum_list (map (\<lambda>w. worker_todo n (wpc w)) ((workers s)[i := (workers s ! i)\<lparr>wpc := WDone\<rparr>])) + {#}"
      using i WPluginDetails Inl by (intro sum_list_map_release) (simp_all add: leaf_records_def)
    with I i WPluginDetails show ?thesis
      unfolding eq by (auto simp add: inv_defs sum_list_map_update_int nth_list_update)
  next
    case (Inr reply)
    show ?thesis
    proof (cases reply)
      case None
      with Inr WPluginDetails st have eq: "w = (workers s ! i)\<lparr>wpc := WNilDeref\<rparr>" "s' = s"
        by auto
      have "sum_list (map (\<lambda>w. worker_todo n (wpc w)) (workers s)) =
            sum_list (map (\<lambda>w. worker_todo n (wpc w)) ((workers s)[i := (workers s ! i)\<lparr>wpc := WNilDeref\<rparr>])) + {#}"
        using i WPluginDetails Inr None
        by (intro sum_list_map_release) (simp_all add: leaf_records_def)
      with I i WPluginDetails show ?thesis
        unfolding eq by (auto simp add: inv_defs sum_list_map_update_int nth_list_update)
    next
      case (Some plugin)
      with Inr WPluginDetails st have eq: "w = (workers s ! i)\<lparr>wpc := WSend plugin\<rparr>" "s' = s"
        by auto
      have "sum_list (map (\<lambda>w. worker_todo n (wpc w)) (workers s)) =
            sum_list (map (\<lambda>w. worker_todo n (wpc w)) ((workers s)[i := (workers s ! i)\<lparr>wpc := WSend plugin\<rparr>])) + {#}"
        using i WPluginDetails Inr Some
        by (intro sum_list_map_release) (simp_all add: leaf_records_def)
      with I i WPluginDetails show ?thesis
        unfolding eq by (auto simp add: inv_defs sum_list_map_update_int nth_list_update)
    qed
  qed
next
  case WNilDeref
  with st have eq: "w = (workers s ! i)\<lparr>wpc := WPanicked\<rparr>" "s' = s\<lparr>dying := True\<rparr>"
    by auto
  have "sum_list (map (\<lambda>w. worker_todo n (wpc w)) (workers s)) =
        sum_list (map (\<lambda>w. worker_todo n (wpc w)) ((workers s)[i := (workers s ! i)\<lparr>wpc := WPanicked\<rparr>])) + {#}"
    using i WNilDeref by (intro sum_list_map_release) simp_all
  with I i WNilDeref show ?thesis
    unfolding eq by (auto simp add: inv_defs sum_list_map_update_int nth_list_update)
next
  case (WSend plugin)
  have pos: "1 \<le> wgp s" using held_leaf_counted[OF I i] WSend by simp
  with I have nc: "\<not> closed (plugChan s)"
    by (cases "(coordinator s, wgf s, wgp s, closed (idChan s), closed (plugChan s))" rule: coord_inv.cases)
      (auto simp: run_inv_def)
  with WSend st have room: "length (buf (plugChan s)) < cap (plugChan s)"
    and eq: "w = (workers s ! i)\<lparr>wpc := WDone\<rparr>"
      "s' = s\<lparr>plugChan := (plugChan s)\<lparr>buf := buf (plugChan s) @ [plugin]\<rparr>\<rparr>"
    by (auto split: if_splits)
  have "sum_list (map (\<lambda>w. worker_todo n (wpc w)) (workers s)) =
        sum_list (map (\<lambda>w. worker_todo n (wpc w)) ((workers s)[i := (workers s ! i)\<lparr>wpc := WDone\<rparr>])) + {#plugin#}"
    using i WSend by (intro sum_list_map_release) simp_all
  with I i WSend nc room show ?thesis
    unfolding eq by (auto simp add: inv_defs sum_list_map_update_int nth_list_update)
next
  case WDone
  have pos: "1 \<le> wgp s" using held_leaf_counted[OF I i] WDone by simp
  with I have c: "coordinator s \<noteq> Some CClosePlugins" "coordinator s \<noteq> Some CExited"
    by (auto simp: run_inv_def)
  from pos WDone st
  have eq: "w = (workers s ! i)\<lparr>wpc := WRange, decremented := decremented (workers s ! i) + 1\<rparr>"
    "s' = s\<lparr>wgp := wgp s - 1\<rparr>"
    by (auto split: if_splits)
  have "sum_list (map (\<lambda>w. worker_todo n (wpc w)) (workers s)) =
        sum_list (map (\<lambda>w. worker_todo n (wpc w))
          ((workers s)[i := (workers s ! i)\<lparr>wpc := WRange, decremented := decremented (workers s ! i) + 1\<rparr>])) + {#}"
    using i WDone by (intro sum_list_map_release) simp_all
  moreover have "coord_inv (coordinator s) (wgf s) (wgp s - 1) (closed (idChan s)) (closed (plugChan s))"
    using I c
    by (cases "(coordinator s, wgf s, wgp s, closed (idChan s), closed (plugChan s))" rule: coord_inv.cases)
      (auto simp: run_inv_def)
  ultimately show ?thesis using I i WDone
    unfolding eq by (auto simp add: inv_defs sum_list_map_update_int nth_list_update)
next
  case WPanicked
  with st show ?thesis by simp
next
  case WExited
  with st show ?thesis by simp
qed

lemma inv_step_coordinator:
  assumes I: "run_inv n s" and c: "coordinator s = Some pc"
    and st: "step_coordinator pc s = Some s'"
  shows "run_inv n s'"
proof -
  have m: "main s = MReturned ReturnChan"
    using I c by (auto simp: run_inv_def dest: main_Returned_if_coordinator)
  show ?thesis
    using st I c m by (cases pc) (auto simp: inv_defs panic_def split: if_splits)
qed

lemma inv_step_caller:
  assumes I: "run_inv n s" and st: "step_caller s = Some s'"
  shows "run_inv n s'"
  using st I by (auto simp: step_caller_def inv_defs split: if_splits list.splits)

lemma inv_step:
  assumes I: "run_inv n s" and st: "step n t s = Some s'"
  shows "run_inv n s'"
proof (cases t)
  case Main
  with st I show ?thesis by (auto simp: step_def intro: inv_step_main split: if_splits)
next
  case (Family i)
  with st I show ?thesis
    by (auto simp: step_def intro: inv_step_family split: if_splits option.splits)
next
  case (Worker i)
  with st I show ?thesis
    by (auto simp: step_def intro: inv_step_worker split: if_splits option.splits)
next
  case Coordinator
  with st I show ?thesis
    by (auto simp: step_def intro: inv_step_coordinator split: if_splits option.splits)
next
  case Caller
  with st I show ?thesis by (auto simp: step_def intro: inv_step_caller split: if_splits)
next
  case Runtime
  with st I show ?thesis
    by (auto simp: step_def step_runtime_def inv_defs split: if_splits)
qed

lemma inv_exec:
  "run_inv n s \<Longrightarrow> exec n sched s = Some s' \<Longrightarrow> run_inv n s'"
  by (induction sched arbitrary: s) (auto split: option.splits dest: inv_step)

lemma inv_AllPlugins:
  "AllPlugins n sched = Some s \<Longrightarrow> run_inv n s"
  unfolding AllPlugins_def using inv_exec[OF inv_start] by blast

subsection \<open>What the counters say in a run\<close>

lemma sum_list_mset_empty:
  "(\<And>x. x \<in> set xs \<Longrightarrow> f x = {#}) \<Longrightarrow> sum_list (map f xs) = ({#} :: 'a multiset)"
  by (induction xs) auto

lemma sum_fam_hold: "sum_list (map fam_hold pcs) = int (length (filter fam_sending pcs))"
proof (induction pcs)
  case Nil then show ?case by simp
next
  case (Cons pc pcs) then show ?case by (cases pc) auto
qed

lemma sum_worker_hold:
  "sum_list (map (\<lambda>w. worker_hold (wpc w)) ws) =
     int (length (filter (\<lambda>w. worker_holding (wpc w)) ws))"
proof (induction ws)
  case Nil then show ?case by simp
next
  case (Cons w ws) then show ?case by (cases "wpc w") auto
qed

lemma counters_as_counts:
  assumes "run_inv n s"
  shows "wgp s = int (length (buf (idChan s))) + int (sending s) + int (holding s)"
  using assms by (simp add: inv_defs sending_def holding_def sum_fam_hold sum_worker_hold)

lemma families_exited:
  assumes I: "run_inv n s" and z: "wgf s = 0" and pc: "pc \<in> set (families s)"
  shows "pc = FExited"
proof -
  from pc obtain i where i: "i < length (families s)" "families s ! i = pc"
    by (auto simp: in_set_conv_nth)
  have "fam_live (families s ! i) = 0"
    using I z i(1) by (intro sum_list_nonneg_zero) (simp_all add: inv_defs fam_live_nonneg)
  with i(2) show ?thesis by (cases pc) auto
qed

lemma nothing_pending:
  assumes I: "run_inv n s" and z: "wgp s = 0"
  shows "buf (idChan s) = []" "sending s = 0" "holding s = 0"
proof -
  have "int (length (buf (idChan s)) + sending s + holding s) = 0"
    using counters_as_counts[OF I] z by simp
  then have "length (buf (idChan s)) + sending s + holding s = 0" by linarith
  then show "buf (idChan s) = []" "sending s = 0" "holding s = 0" by auto
qed

lemma filter_length_zero: "length (filter P xs) = 0 \<Longrightarrow> x \<in> set xs \<Longrightarrow> \<not> P x"
  by (auto simp: filter_empty_conv)

lemma closed_plugChan:
  assumes I: "run_inv n s" and c: "closed (plugChan s)"
  shows "coordinator s = Some CExited" "wgf s = 0" "wgp s = 0" "closed (idChan s)"
    "main s = MReturned ReturnChan"
proof -
  show c1: "coordinator s = Some CExited"
    using I c
    by (cases "(coordinator s, wgf s, wgp s, closed (idChan s), closed (plugChan s))" rule: coord_inv.cases)
      (auto simp: run_inv_def)
  with I show "wgf s = 0" "wgp s = 0" "closed (idChan s)" by (auto simp: run_inv_def)
  from I c1 show "main s = MReturned ReturnChan"
    by (auto simp: run_inv_def dest: main_Returned_if_coordinator)
qed

lemma closed_idChan:
  assumes I: "run_inv n s" and c: "closed (idChan s)"
  shows "wgf s = 0" "main s = MReturned ReturnChan" "coordinator s \<noteq> None"
proof -
  have c1: "coordinator s \<noteq> None \<and> wgf s = 0"
    using I c
    by (cases "(coordinator s, wgf s, wgp s, closed (idChan s), closed (plugChan s))" rule: coord_inv.cases)
      (auto simp: run_inv_def)
  then show "wgf s = 0" "coordinator s \<noteq> None" by auto
  from I c1 show "main s = MReturned ReturnChan"
    by (auto simp: run_inv_def dest: main_Returned_if_coordinator)
qed

lemma todo_empty:
  assumes I: "run_inv n s" and c: "closed (plugChan s)"
  shows "todo n s = {#}"
proof -
  note cl = closed_plugChan[OF I c]
  have f: "sum_list (map (fam_todo n) (families s)) = {#}"
  proof (rule sum_list_mset_empty)
    fix pc assume "pc \<in> set (families s)"
    then have "pc = FExited" using families_exited[OF I cl(2)] by simp
    then show "fam_todo n pc = {#}" by simp
  qed
  note np = nothing_pending[OF I cl(3)]
  have w: "sum_list (map (\<lambda>w. worker_todo n (wpc w)) (workers s)) = {#}"
  proof (rule sum_list_mset_empty)
    fix w assume "w \<in> set (workers s)"
    then have "\<not> worker_holding (wpc w)"
      using np(3) filter_length_zero[of "\<lambda>w. worker_holding (wpc w)" "workers s" w]
      by (simp add: holding_def)
    then show "worker_todo n (wpc w) = {#}" by (cases "wpc w") auto
  qed
  show ?thesis using f w np(1) cl(5) by (simp add: todo_def)
qed

subsection \<open>Every run is finite and ends with the stream closed\<close>

lemma sum_list_map_update_nat:
  "i < length xs \<Longrightarrow>
     sum_list (map f (xs[i := y])) + f (xs ! i) = sum_list (map f xs) + (f y :: nat)"
  by (induction xs arbitrary: i) (auto split: nat.splits)

lemma step_main_decreases:
  assumes "step_main n (main s) s = Some s'"
  shows "steps_left n s' < steps_left n s"
  using assms
  by (cases "(n, main s, s)" rule: step_main.cases)
    (auto simp: steps_left_def split: sum.splits if_splits)

lemma step_family_decreases:
  assumes i: "i < length (families s)"
    and st: "step_family n (families s ! i) s = Some (pc, s')"
    and np: "\<not> panicked s'"
  shows "steps_left n (s'\<lparr>families := (families s')[i := pc]\<rparr>) < steps_left n s"
proof -
  have u: "sum_list (map (fam_left n) ((families s)[i := pc])) + fam_left n (families s ! i) =
        sum_list (map (fam_left n) (families s)) + fam_left n pc"
    using i by (rule sum_list_map_update_nat)
  show ?thesis
    using st np u
    by (cases "(n, families s ! i, s)" rule: step_family.cases)
      (auto simp: steps_left_def panic_def split: sum.splits option.splits if_splits)
qed

lemma step_worker_decreases:
  assumes i: "i < length (workers s)"
    and st: "step_worker n (wpc (workers s ! i)) (workers s ! i) s = Some (w, s')"
    and np: "\<not> panicked s'"
  shows "steps_left n (s'\<lparr>workers := (workers s')[i := w]\<rparr>) < steps_left n s"
proof -
  have u: "sum_list (map (\<lambda>w. worker_left (wpc w)) ((workers s)[i := w])) +
          worker_left (wpc (workers s ! i)) =
        sum_list (map (\<lambda>w. worker_left (wpc w)) (workers s)) + worker_left (wpc w)"
    using i by (rule sum_list_map_update_nat)
  show ?thesis
    using st np u
    by (cases "wpc (workers s ! i)")
      (auto simp: steps_left_def panic_def split: sum.splits option.splits if_splits list.splits)
qed

lemma step_decreases:
  assumes I: "run_inv n s" and st: "step n t s = Some s'"
  shows "steps_left n s' < steps_left n s"
proof -
  have "run_inv n s'" using I st by (rule inv_step)
  then have np: "\<not> panicked s'" by (simp add: run_inv_def)
  show ?thesis
  proof (cases t)
    case Main
    with st show ?thesis by (auto simp: step_def intro: step_main_decreases split: if_splits)
  next
    case (Family i)
    with st np show ?thesis
      by (auto simp: step_def intro: step_family_decreases split: if_splits option.splits)
  next
    case (Worker i)
    with st np show ?thesis
      by (auto simp: step_def intro: step_worker_decreases split: if_splits option.splits)
  next
    case Coordinator
    with st np show ?thesis
      by (cases "the (coordinator s)")
        (auto simp: step_def steps_left_def panic_def split: if_splits option.splits)
  next
    case Caller
    with st show ?thesis
      by (auto simp: step_def step_caller_def steps_left_def split: if_splits list.splits)
  next
    case Runtime
    with st show ?thesis
      by (auto simp: step_def step_runtime_def steps_left_def split: if_splits)
  qed
qed

lemma exec_bounded:
  "run_inv n s \<Longrightarrow> exec n sched s = Some s' \<Longrightarrow>
     length sched + steps_left n s' \<le> steps_left n s"
proof (induction sched arbitrary: s)
  case Nil then show ?case by simp
next
  case (Cons t ts)
  from Cons.prems(2) obtain s1 where s1: "step n t s = Some s1" "exec n ts s1 = Some s'"
    by (auto split: option.splits)
  have "run_inv n s1" using Cons.prems(1) s1(1) by (rule inv_step)
  from Cons.IH[OF this s1(2)] step_decreases[OF Cons.prems(1) s1(1)] show ?case by simp
qed

lemma exec_append:
  "exec n (xs @ ys) s = (case exec n xs s of None \<Rightarrow> None | Some s' \<Rightarrow> exec n ys s')"
  by (induction xs arbitrary: s) (auto split: option.splits)

lemma run_to_end:
  "run_inv n s \<Longrightarrow> \<exists>sched s'. exec n sched s = Some s' \<and> ended n s'"
proof (induction "steps_left n s" arbitrary: s rule: less_induct)
  case less
  show ?case
  proof (cases "ended n s")
    case True
    then have "exec n [] s = Some s \<and> ended n s" by simp
    then show ?thesis by blast
  next
    case False
    then obtain t s1 where s1: "step n t s = Some s1" by (auto simp: ended_def)
    have "steps_left n s1 < steps_left n s" using less.prems s1 by (rule step_decreases)
    moreover have "run_inv n s1" using less.prems s1 by (rule inv_step)
    ultimately obtain sched s' where "exec n sched s1 = Some s'" "ended n s'"
      using less.hyps by blast
    with s1 have "exec n (t # sched) s = Some s' \<and> ended n s'" by simp
    then show ?thesis by blast
  qed
qed

lemma ended_not_dying:
  assumes "ended n s" "\<not> panicked s" "\<not> terminated s"
  shows "\<not> dying s"
proof -
  from assms(1) have "step n Runtime s = None" by (simp add: ended_def)
  with assms(2,3) show ?thesis by (simp add: step_def step_runtime_def split: if_splits)
qed

lemma ended_main:
  assumes "ended n s" "\<not> panicked s" "\<not> terminated s"
  shows "\<exists>r. main s = MReturned r"
proof -
  from assms(1) have "step n Main s = None" by (simp add: ended_def)
  with assms(2,3) have "step_main n (main s) s = None" by (simp add: step_def)
  then show ?thesis
    by (cases "(n, main s, s)" rule: step_main.cases) (auto split: sum.splits if_splits)
qed

lemma ended_caller:
  assumes "ended n s" "\<not> panicked s" "\<not> terminated s" "main s = MReturned ReturnChan"
  shows "buf (plugChan s) = []"
proof -
  from assms(1) have "step n Caller s = None" by (simp add: ended_def)
  with assms(2,3) have "step_caller s = None" by (simp add: step_def)
  with assms(4) show ?thesis by (auto simp: step_caller_def split: list.splits)
qed

lemma ended_worker:
  assumes E: "ended n s" and np: "\<not> panicked s" and nt: "\<not> terminated s"
    and i: "i < length (workers s)"
    and room: "length (buf (plugChan s)) < cap (plugChan s)"
  shows "wpc (workers s ! i) = WExited \<or> wpc (workers s ! i) = WPanicked \<or>
         (wpc (workers s ! i) = WRange \<and> buf (idChan s) = [] \<and> \<not> closed (idChan s))"
proof -
  from E have "step n (Worker i) s = None" by (simp add: ended_def)
  with np nt i have "step_worker n (wpc (workers s ! i)) (workers s ! i) s = None"
    by (auto simp: step_def split: option.splits)
  with room show ?thesis
    by (cases "wpc (workers s ! i)")
      (auto split: list.splits sum.splits option.splits if_splits)
qed

lemma ended_family:
  assumes E: "ended n s" and np: "\<not> panicked s" and nt: "\<not> terminated s"
    and i: "i < length (families s)"
  shows "families s ! i = FExited \<or>
         ((\<exists>k j pid rest. families s ! i = FSend k j pid rest) \<and> \<not> closed (idChan s) \<and>
          cap (idChan s) \<le> length (buf (idChan s)))"
proof -
  from E have "step n (Family i) s = None" by (simp add: ended_def)
  with np nt i have "step_family n (families s ! i) s = None"
    by (auto simp: step_def split: option.splits)
  then show ?thesis
    by (cases "(n, families s ! i, s)" rule: step_family.cases)
      (auto split: sum.splits option.splits if_splits)
qed

lemma ended_coordinator:
  assumes E: "ended n s" and np: "\<not> panicked s" and nt: "\<not> terminated s"
    and c: "coordinator s = Some pc"
  shows "pc = CExited \<or> (pc = CWaitFamilies \<and> wgf s \<noteq> 0) \<or> (pc = CWaitPlugins \<and> wgp s \<noteq> 0)"
proof -
  from E have "step n Coordinator s = None" by (simp add: ended_def)
  with np nt c have "step_coordinator pc s = None" by (simp add: step_def)
  then show ?thesis by (cases pc) (auto split: if_splits)
qed

lemma exited_worker_idChan:
  assumes "run_inv n s" "i < length (workers s)" "wpc (workers s ! i) = WExited"
  shows "closed (idChan s)" "buf (idChan s) = []"
  using assms by (simp_all add: run_inv_def workers_inv_def)

lemma ended_closed:
  assumes I: "run_inv n s" and E: "ended n s" and nt: "\<not> terminated s"
    and m: "main s = MReturned ReturnChan"
  shows "closed (plugChan s) \<and> buf (plugChan s) = []"
proof -
  from I have np: "\<not> panicked s" by (simp add: run_inv_def)
  have nd: "\<not> dying s" using E np nt by (rule ended_not_dying)
  have alive: "wpc (workers s ! i) \<noteq> WPanicked" if "i < length (workers s)" for i
    using I nd that by (auto simp: run_inv_def workers_inv_def)
  from I m have nw: "length (workers s) = 10" and c0: "coordinator s \<noteq> None"
    by (simp_all add: run_inv_def)
  from I have caps: "cap (idChan s) = 20" "cap (plugChan s) = 20"
    by (simp_all add: run_inv_def chans_inv_def)
  have pb: "buf (plugChan s) = []" using E np nt m by (rule ended_caller)
  have w: "wpc (workers s ! i) = WExited \<or>
         (wpc (workers s ! i) = WRange \<and> buf (idChan s) = [] \<and> \<not> closed (idChan s))"
    if "i < length (workers s)" for i
    using ended_worker[OF E np nt that] alive[OF that] by (simp add: pb caps)
  have w0: "0 < length (workers s)" using nw by simp
  have f: "families s ! i = FExited" if "i < length (families s)" for i
    using ended_family[OF E np nt that] w[OF w0] exited_worker_idChan(1)[OF I w0] caps
    by auto
  have "map fam_live (families s) = replicate (length (families s)) 0"
    by (rule nth_equalityI) (simp_all add: f)
  then have "sum_list (map fam_live (families s)) = 0"
    by (simp add: sum_list_replicate)
  with I have z: "wgf s = 0" by (simp add: inv_defs)
  from c0 obtain pc where c: "coordinator s = Some pc" by auto
  from ended_coordinator[OF E np nt c] z
  have "pc = CExited \<or> (pc = CWaitPlugins \<and> wgp s \<noteq> 0)" by auto
  then have "pc = CExited"
  proof
    assume "pc = CExited" then show ?thesis .
  next
    assume a: "pc = CWaitPlugins \<and> wgp s \<noteq> 0"
    with I c have cl: "closed (idChan s)" by (simp add: run_inv_def)
    have idle: "\<not> worker_holding (wpc w)" if "w \<in> set (workers s)" for w
      using that w cl by (auto simp: in_set_conv_nth)
    have "buf (idChan s) = []"
      using w[OF w0] cl exited_worker_idChan(2)[OF I w0] by auto
    moreover have "sending s = 0"
      using f by (auto simp: sending_def filter_empty_conv in_set_conv_nth)
    moreover have "holding s = 0"
      using idle by (auto simp: holding_def filter_empty_conv)
    ultimately have "wgp s = 0" using counters_as_counts[OF I] by simp
    with a show ?thesis by simp
  qed
  with I c pb show ?thesis by (simp add: run_inv_def)
qed

lemma ended_received:
  assumes I: "run_inv n s" and E: "ended n s" and nt: "\<not> terminated s"
  shows "mset (received s) = mset (expected_records n)"
proof -
  from I have np: "\<not> panicked s" by (simp add: run_inv_def)
  from ended_main[OF E np nt] obtain r where r: "main s = MReturned r" by blast
  show ?thesis
  proof (cases r)
    case (ReturnErr err)
    with I r have "expected_records n = []" by (simp add: run_inv_def expected_records_def)
    moreover from I have "mset (expected_records n) = mset (emitted s) + todo n s"
      by (simp add: run_inv_def)
    ultimately show ?thesis by (simp add: emitted_def)
  next
    case ReturnChan
    with r have m: "main s = MReturned ReturnChan" by simp
    from ended_closed[OF I E nt m] have c: "closed (plugChan s)" "buf (plugChan s) = []"
      by simp_all
    from I todo_empty[OF I c(1)] have "mset (emitted s) = mset (expected_records n)"
      by (simp add: run_inv_def)
    with c(2) show ?thesis by (simp add: emitted_def)
  qed
qed

lemma no_step_when_all_exited:
  assumes "main s = MReturned r" "\<forall>pc \<in> set (families s). pc = FExited"
    "\<forall>w \<in> set (workers s). wpc w = WExited" "coordinator s = Some CExited"
    "buf (plugChan s) = []" "\<not> dying s"
  shows "ended n s"
  unfolding ended_def
proof
  fix t
  have "families s ! i = FExited" if "i < length (families s)" for i
    using assms(2) that by simp
  moreover have "wpc (workers s ! i) = WExited" if "i < length (workers s)" for i
    using assms(3) that by simp
  ultimately show "step n t s = None"
    using assms(1,4,5,6) by (cases t) (auto simp: step_def step_caller_def step_runtime_def)
qed


lemma terminated_ended: "terminated s \<Longrightarrow> ended n s"
  by (simp add: ended_def step_def)

subsection \<open>Without nil replies no run dies\<close>

lemma safe_start: "nil_free n \<Longrightarrow> safe n AllPlugins_start"
  by (simp add: safe_def AllPlugins_start_def make_chan_def)

lemma safe_step_main:
  assumes "safe n s" "step_main n (main s) s = Some s'"
  shows "safe n s'"
  using assms(2,1)
  by (cases rule: step_main.elims)
    (auto simp: safe_def nil_free_def split: sum.splits if_splits)

lemma list_all_update: "list_all P xs \<Longrightarrow> P y \<Longrightarrow> list_all P (xs[i := y])"
  by (induction xs arbitrary: i) (auto split: nat.splits)

lemma leaf_nil_free_None: "PluginDetails n t pid = Inr None \<Longrightarrow> \<not> leaf_nil_free n t pid"
  by (simp add: leaf_nil_free_def)

lemma family_nil_free_None: "FamilyDetails n i famID = Inr None \<Longrightarrow> \<not> family_nil_free n i famID"
  by (simp add: family_nil_free_def)

lemma family_nil_free_Some:
  "FamilyDetails n i famID = Inr (Some famDetails) \<Longrightarrow>
     family_nil_free n i famID = leaves_nil_free n i 0 (Plugins famDetails)"
  by (simp add: family_nil_free_def)

lemma safe_family_local:
  assumes "fam_safe n pc0" "step_family n pc0 s = Some (pc, s')" "\<not> dying s"
    "list_all (\<lambda>(t, pid). leaf_nil_free n t pid) (buf (idChan s))"
  shows "fam_safe n pc \<and> families s' = families s \<and> workers s' = workers s \<and>
         main s' = main s \<and> \<not> dying s' \<and> terminated s' = terminated s \<and>
         list_all (\<lambda>(t, pid). leaf_nil_free n t pid) (buf (idChan s'))"
  using assms
  by (cases "(n, pc0, s)" rule: step_family.cases)
    (auto simp: panic_def family_nil_free_None family_nil_free_Some
          split: sum.splits option.splits if_splits)

lemma safe_step_family:
  assumes S: "safe n s" and i: "i < length (families s)"
    and st: "step_family n (families s ! i) s = Some (pc, s')"
  shows "safe n (s'\<lparr>families := (families s')[i := pc]\<rparr>)"
proof -
  have here: "fam_safe n (families s ! i)"
    using S i by (simp add: safe_def list_all_length)
  from safe_family_local[OF here st] S show ?thesis
    by (simp add: safe_def list_all_update)
qed

lemma safe_worker_local:
  assumes "worker_safe n (wpc w0)" "step_worker n (wpc w0) w0 s = Some (w, s')" "\<not> dying s"
    "list_all (\<lambda>(t, pid). leaf_nil_free n t pid) (buf (idChan s))"
  shows "worker_safe n (wpc w) \<and> families s' = families s \<and> workers s' = workers s \<and>
         main s' = main s \<and> \<not> dying s' \<and> terminated s' = terminated s \<and>
         list_all (\<lambda>(t, pid). leaf_nil_free n t pid) (buf (idChan s'))"
  using assms
  by (cases "wpc w0")
    (auto simp: panic_def leaf_nil_free_None
          split: sum.splits option.splits if_splits list.splits)

lemma safe_step_worker:
  assumes S: "safe n s" and i: "i < length (workers s)"
    and st: "step_worker n (wpc (workers s ! i)) (workers s ! i) s = Some (w, s')"
  shows "safe n (s'\<lparr>workers := (workers s')[i := w]\<rparr>)"
proof -
  have here: "worker_safe n (wpc (workers s ! i))"
    using S i by (simp add: safe_def list_all_length)
  from safe_worker_local[OF here st] S show ?thesis
    by (simp add: safe_def list_all_update)
qed

lemma safe_step:
  assumes S: "safe n s" and st: "step n t s = Some s'"
  shows "safe n s'"
proof (cases t)
  case Main
  with st S show ?thesis by (auto simp: step_def intro: safe_step_main split: if_splits)
next
  case (Family i)
  with st S show ?thesis
    by (auto simp: step_def intro: safe_step_family split: if_splits option.splits)
next
  case (Worker i)
  with st S show ?thesis
    by (auto simp: step_def intro: safe_step_worker split: if_splits option.splits)
next
  case Coordinator
  with st S show ?thesis
    by (cases "the (coordinator s)")
      (auto simp: step_def safe_def panic_def split: if_splits option.splits)
next
  case Caller
  with st S show ?thesis
    by (auto simp: step_def step_caller_def safe_def split: if_splits list.splits)
next
  case Runtime
  with st S show ?thesis
    by (auto simp: step_def step_runtime_def safe_def split: if_splits)
qed

lemma safe_exec:
  "safe n s \<Longrightarrow> exec n sched s = Some s' \<Longrightarrow> safe n s'"
  by (induction sched arbitrary: s) (auto split: option.splits dest: safe_step)

lemma safe_AllPlugins:
  "nil_free n \<Longrightarrow> AllPlugins n sched = Some s \<Longrightarrow> \<not> dying s \<and> \<not> terminated s"
  unfolding AllPlugins_def using safe_exec[OF safe_start] by (auto simp: safe_def)

subsection \<open>What every run comes to\<close>

lemma run_finite:
  assumes "AllPlugins n sched = Some s"
  shows "length sched \<le> steps_left n AllPlugins_start"
  using exec_bounded[OF inv_start, of n sched s] assms by (simp add: AllPlugins_def)

lemma run_extends:
  assumes "AllPlugins n sched = Some s"
  shows "\<exists>sched' s'. AllPlugins n (sched @ sched') = Some s' \<and> ended n s'"
proof -
  have "run_inv n s" using assms by (rule inv_AllPlugins)
  then obtain sched' s' where "exec n sched' s = Some s'" "ended n s'"
    using run_to_end by blast
  with assms have "AllPlugins n (sched @ sched') = Some s' \<and> ended n s'"
    by (simp add: AllPlugins_def exec_append)
  then show ?thesis by blast
qed

lemma ended_returned_chan:
  assumes I: "run_inv n s" and E: "ended n s" and nt: "\<not> terminated s"
    and l: "PluginFamilies n = Inr fams"
  shows "main s = MReturned ReturnChan"
proof -
  from I have np: "\<not> panicked s" by (simp add: run_inv_def)
  from ended_main[OF E np nt] obtain r where r: "main s = MReturned r" by blast
  with I l show ?thesis by (cases r) (auto simp: run_inv_def)
qed

lemma run_end_complete:
  assumes r: "AllPlugins n sched = Some s" and E: "ended n s" and nt: "\<not> terminated s"
    and l: "PluginFamilies n = Inr fams"
  shows "closed (plugChan s) \<and> buf (plugChan s) = [] \<and>
         mset (received s) = mset (expected_records n)"
proof -
  have I: "run_inv n s" using r by (rule inv_AllPlugins)
  have "main s = MReturned ReturnChan" using I E nt l by (rule ended_returned_chan)
  with ended_closed[OF I E nt] ended_received[OF I E nt] show ?thesis by simp
qed

lemma run_completes:
  assumes nf: "nil_free n" and l: "PluginFamilies n = Inr fams"
    and r: "AllPlugins n sched = Some s"
  shows "\<exists>sched' s'. AllPlugins n (sched @ sched') = Some s' \<and> ended n s' \<and>
           closed (plugChan s') \<and> buf (plugChan s') = [] \<and>
           mset (received s') = mset (expected_records n)"
proof -
  from run_extends[OF r] obtain sched' s' where
    e: "AllPlugins n (sched @ sched') = Some s'" "ended n s'" by blast
  have nt: "\<not> terminated s'" using safe_AllPlugins[OF nf e(1)] by simp
  from run_end_complete[OF e(1) e(2) nt l] e show ?thesis by blast
qed

subsection \<open>With a nil reply every run dies\<close>

lemma list_all_before_update:
  "list_all P (xs[i := y]) \<Longrightarrow> P (xs ! i) \<Longrightarrow> list_all P xs"
  unfolding list_all_length
  by (metis length_list_update nth_list_update_neq)

lemma list_all_update_nth: "list_all P (xs[i := y]) \<Longrightarrow> i < length xs \<Longrightarrow> P y"
  unfolding list_all_length
  by (metis length_list_update nth_list_update_eq)

lemma family_nil_free_Inl: "FamilyDetails n i famID = Inl err \<Longrightarrow> family_nil_free n i famID"
  by (simp add: family_nil_free_def)

lemma leaf_nil_free_Inl: "PluginDetails n t pid = Inl err \<Longrightarrow> leaf_nil_free n t pid"
  by (simp add: leaf_nil_free_def)

lemma leaf_nil_free_Some: "PluginDetails n t pid = Inr (Some plugin) \<Longrightarrow> leaf_nil_free n t pid"
  by (simp add: leaf_nil_free_def)

lemma safe_before_main:
  assumes "safe n s'" "step_main n (main s) s = Some s'"
  shows "safe n s"
  using assms(2,1)
  by (cases rule: step_main.elims)
    (auto simp: safe_def nil_free_def split: sum.splits if_splits)

lemma safe_before_family_local:
  assumes "step_family n pc0 s = Some (pc, s')" "fam_safe n pc" "\<not> dying s'"
    "list_all (\<lambda>(t, pid). leaf_nil_free n t pid) (buf (idChan s'))"
  shows "fam_safe n pc0 \<and> families s' = families s \<and> workers s' = workers s \<and>
         main s' = main s \<and> \<not> dying s \<and> terminated s' = terminated s \<and>
         list_all (\<lambda>(t, pid). leaf_nil_free n t pid) (buf (idChan s))"
  using assms
  by (cases "(n, pc0, s)" rule: step_family.cases)
    (auto simp: panic_def family_nil_free_Inl family_nil_free_Some
          split: sum.splits option.splits if_splits)

lemma safe_before_family:
  assumes S: "safe n (s'\<lparr>families := (families s')[i := pc]\<rparr>)" and i: "i < length (families s)"
    and st: "step_family n (families s ! i) s = Some (pc, s')"
  shows "safe n s"
proof -
  have same: "families s' = families s"
    using st by (cases "(n, families s ! i, s)" rule: step_family.cases)
      (auto simp: panic_def split: sum.splits option.splits if_splits)
  have here: "fam_safe n pc"
    using S i same list_all_update_nth[of "fam_safe n" "families s" i pc]
    by (simp add: safe_def)
  from S have "\<not> dying s'" "list_all (\<lambda>(t, pid). leaf_nil_free n t pid) (buf (idChan s'))"
    by (simp_all add: safe_def)
  from safe_before_family_local[OF st here this] S show ?thesis
    by (auto simp: safe_def intro: list_all_before_update)
qed

lemma safe_before_worker_local:
  assumes "step_worker n (wpc w0) w0 s = Some (w, s')" "worker_safe n (wpc w)" "\<not> dying s'"
    "list_all (\<lambda>(t, pid). leaf_nil_free n t pid) (buf (idChan s'))"
  shows "worker_safe n (wpc w0) \<and> families s' = families s \<and> workers s' = workers s \<and>
         main s' = main s \<and> \<not> dying s \<and> terminated s' = terminated s \<and>
         list_all (\<lambda>(t, pid). leaf_nil_free n t pid) (buf (idChan s))"
  using assms
  by (cases "wpc w0")
    (auto simp: panic_def leaf_nil_free_Inl leaf_nil_free_Some
          split: sum.splits option.splits if_splits list.splits)

lemma safe_before_worker:
  assumes S: "safe n (s'\<lparr>workers := (workers s')[i := w]\<rparr>)" and i: "i < length (workers s)"
    and st: "step_worker n (wpc (workers s ! i)) (workers s ! i) s = Some (w, s')"
  shows "safe n s"
proof -
  have same: "workers s' = workers s"
    using st by (cases "wpc (workers s ! i)")
      (auto simp: panic_def split: sum.splits option.splits if_splits list.splits)
  have here: "worker_safe n (wpc w)"
    using S i same list_all_update_nth[of "\<lambda>w. worker_safe n (wpc w)" "workers s" i w]
    by (simp add: safe_def)
  from S have "\<not> dying s'" "list_all (\<lambda>(t, pid). leaf_nil_free n t pid) (buf (idChan s'))"
    by (simp_all add: safe_def)
  from safe_before_worker_local[OF st here this] S show ?thesis
    by (auto simp: safe_def intro: list_all_before_update[where P = "\<lambda>w. worker_safe n (wpc w)"])
qed

lemma safe_before:
  assumes S: "safe n s'" and st: "step n t s = Some s'"
  shows "safe n s"
proof (cases t)
  case Main
  with st S show ?thesis by (auto simp: step_def intro: safe_before_main split: if_splits)
next
  case (Family i)
  with st S show ?thesis
    by (auto simp: step_def intro: safe_before_family split: if_splits option.splits)
next
  case (Worker i)
  with st S show ?thesis
    by (auto simp: step_def intro: safe_before_worker split: if_splits option.splits)
next
  case Coordinator
  with st S show ?thesis
    by (cases "the (coordinator s)")
      (auto simp: step_def safe_def panic_def split: if_splits option.splits)
next
  case Caller
  with st S show ?thesis
    by (auto simp: step_def step_caller_def safe_def split: if_splits list.splits)
next
  case Runtime
  with st S show ?thesis
    by (auto simp: step_def step_runtime_def safe_def split: if_splits)
qed

lemma safe_before_exec:
  "exec n sched s = Some s' \<Longrightarrow> safe n s' \<Longrightarrow> safe n s"
  by (induction sched arbitrary: s) (auto split: option.splits dest: safe_before)

lemma unsafe_AllPlugins:
  assumes "\<not> nil_free n" "AllPlugins n sched = Some s"
  shows "\<not> safe n s"
proof
  assume "safe n s"
  with assms(2) have "safe n AllPlugins_start"
    unfolding AllPlugins_def by (rule safe_before_exec)
  with assms(1) show False by (simp add: safe_def AllPlugins_start_def)
qed

lemma closed_safe_or_dying:
  assumes I: "run_inv n s" and c: "closed (plugChan s)" and nd: "\<not> dying s"
    and nt: "\<not> terminated s"
  shows "safe n s"
proof -
  note cl = closed_plugChan[OF I c]
  note np = nothing_pending[OF I cl(3)]
  have f: "list_all (fam_safe n) (families s)"
    unfolding list_all_iff
  proof
    fix pc assume "pc \<in> set (families s)"
    then have "pc = FExited" by (rule families_exited[OF I cl(2)])
    then show "fam_safe n pc" by simp
  qed
  have w: "list_all (\<lambda>w. worker_safe n (wpc w)) (workers s)"
    unfolding list_all_iff
  proof
    fix w assume "w \<in> set (workers s)"
    then have "\<not> worker_holding (wpc w)"
      using np(3) filter_length_zero[of "\<lambda>w. worker_holding (wpc w)" "workers s" w]
      by (simp add: holding_def)
    then show "worker_safe n (wpc w)" by (cases "wpc w") auto
  qed
  from f w np(1) cl(5) nd nt show ?thesis by (simp add: safe_def)
qed

lemma nil_run_dies:
  assumes nf: "\<not> nil_free n" and r: "AllPlugins n sched = Some s" and E: "ended n s"
  shows "terminated s"
proof (rule ccontr)
  assume nt: "\<not> terminated s"
  have I: "run_inv n s" using r by (rule inv_AllPlugins)
  then have np: "\<not> panicked s" by (simp add: run_inv_def)
  have nd: "\<not> dying s" using E np nt by (rule ended_not_dying)
  from nf obtain fams where l: "PluginFamilies n = Inr fams"
    by (cases "PluginFamilies n") (auto simp: nil_free_def)
  have m: "main s = MReturned ReturnChan" using I E nt l by (rule ended_returned_chan)
  from ended_closed[OF I E nt m] have "closed (plugChan s)" by simp
  from closed_safe_or_dying[OF I this nd nt] unsafe_AllPlugins[OF nf r] show False by simp
qed

lemma worker_died_family_local:
  assumes "step_family n pc0 s = Some (pc, s')" "\<forall>i famID. FamilyDetails n i famID \<noteq> Inr None"
    "pc0 \<noteq> FNilDeref"
  shows "pc \<noteq> FNilDeref \<and> dying s' = dying s \<and> workers s' = workers s \<and>
         families s' = families s \<and> terminated s' = terminated s"
  using assms
  by (cases "(n, pc0, s)" rule: step_family.cases)
    (auto simp: panic_def split: sum.splits option.splits if_splits)

lemma worker_died_worker_local:
  assumes "step_worker n (wpc w0) w0 s = Some (w, s')"
  shows "wpc w0 \<noteq> WPanicked \<and> workers s' = workers s \<and> families s' = families s \<and>
         (dying s' \<longrightarrow> dying s \<or> wpc w = WPanicked) \<and> (dying s \<longrightarrow> dying s') \<and>
         terminated s' = terminated s"
  using assms
  by (cases "wpc w0")
    (auto simp: panic_def split: sum.splits option.splits if_splits list.splits)

lemma list_ex_update_other:
  "list_ex P xs \<Longrightarrow> \<not> P (xs ! i) \<Longrightarrow> list_ex P (xs[i := y])"
  unfolding list_ex_length
  by (metis length_list_update nth_list_update_neq)

lemma list_ex_update_here: "i < length xs \<Longrightarrow> P y \<Longrightarrow> list_ex P (xs[i := y])"
  unfolding list_ex_length
  by (metis length_list_update nth_list_update_eq)

lemma worker_died_step:
  assumes fam: "\<forall>i famID. FamilyDetails n i famID \<noteq> Inr None"
    and J: "worker_died s" and st: "step n t s = Some s'"
  shows "worker_died s'"
proof (cases t)
  case Main
  with st J show ?thesis
    by (cases "(n, main s, s)" rule: step_main.cases)
      (auto simp: step_def worker_died_def split: if_splits sum.splits)
next
  case (Family i)
  with st obtain pc s0 where i: "i < length (families s)"
    and f: "step_family n (families s ! i) s = Some (pc, s0)"
    and s': "s' = s0\<lparr>families := (families s0)[i := pc]\<rparr>"
    by (auto simp: step_def split: if_splits option.splits)
  have "families s ! i \<noteq> FNilDeref" using J i by (simp add: worker_died_def list_all_length)
  from worker_died_family_local[OF f fam this] J show ?thesis
    unfolding s' by (simp add: worker_died_def list_all_update)
next
  case (Worker i)
  with st obtain w s0 where i: "i < length (workers s)"
    and f: "step_worker n (wpc (workers s ! i)) (workers s ! i) s = Some (w, s0)"
    and s': "s' = s0\<lparr>workers := (workers s0)[i := w]\<rparr>"
    by (auto simp: step_def split: if_splits option.splits)
  note l = worker_died_worker_local[OF f]
  have "list_ex (\<lambda>w. wpc w = WPanicked) ((workers s)[i := w])" if d: "dying s0"
  proof (cases "wpc w = WPanicked")
    case True
    with i show ?thesis by (intro list_ex_update_here) simp_all
  next
    case False
    with l d have "dying s" by simp
    with J have "list_ex (\<lambda>w. wpc w = WPanicked) (workers s)" by (simp add: worker_died_def)
    then show ?thesis using l by (intro list_ex_update_other) simp_all
  qed
  with l J show ?thesis unfolding s' by (simp add: worker_died_def)
next
  case Coordinator
  with st J show ?thesis
    by (cases "the (coordinator s)")
      (auto simp: step_def worker_died_def panic_def split: if_splits option.splits)
next
  case Caller
  with st J show ?thesis
    by (auto simp: step_def step_caller_def worker_died_def split: if_splits list.splits)
next
  case Runtime
  with st J show ?thesis
    by (auto simp: step_def step_runtime_def worker_died_def split: if_splits)
qed

lemma worker_died_exec:
  "\<forall>i famID. FamilyDetails n i famID \<noteq> Inr None \<Longrightarrow> worker_died s \<Longrightarrow>
     exec n sched s = Some s' \<Longrightarrow> worker_died s'"
  by (induction sched arbitrary: s) (auto split: option.splits dest: worker_died_step)

lemma nil_leaf_never_closed:
  assumes fam: "\<forall>i famID. FamilyDetails n i famID \<noteq> Inr None"
    and nf: "\<not> nil_free n" and r: "AllPlugins n sched = Some s"
  shows "\<not> closed (plugChan s)"
proof
  assume c: "closed (plugChan s)"
  have I: "run_inv n s" using r by (rule inv_AllPlugins)
  have "worker_died AllPlugins_start" by (simp add: worker_died_def AllPlugins_start_def)
  from worker_died_exec[OF fam this] r have J: "worker_died s" by (simp add: AllPlugins_def)
  have idle: "\<not> worker_holding (wpc w)" if "w \<in> set (workers s)" for w
    using nothing_pending(3)[OF I closed_plugChan(3)[OF I c]] that
      filter_length_zero[of "\<lambda>w. worker_holding (wpc w)" "workers s" w]
    by (simp add: holding_def)
  have nd: "\<not> dying s"
  proof
    assume "dying s"
    with J obtain w where "w \<in> set (workers s)" "wpc w = WPanicked"
      by (auto simp: worker_died_def list_ex_iff)
    with idle[of w] show False by simp
  qed
  with J have nt: "\<not> terminated s" by (auto simp: worker_died_def)
  from closed_safe_or_dying[OF I c nd nt] unsafe_AllPlugins[OF nf r] show False by simp
qed

subsection \<open>The body of \<open>AllPlugins\<close> returns\<close>

lemma step_main_left:
  assumes "main_steps_left n pc = Suc k"
  shows "\<exists>s'. step_main n pc s = Some s' \<and> main_steps_left n (main s') = k \<and>
           panicked s' = panicked s \<and> terminated s' = terminated s"
  using assms
  by (cases "(n, pc, s)" rule: step_main.cases) (auto split: sum.splits)

lemma main_returns:
  "\<not> panicked s \<Longrightarrow> \<not> terminated s \<Longrightarrow> main_steps_left n (main s) = k \<Longrightarrow>
     \<exists>s' r. exec n (replicate k Main) s = Some s' \<and> main s' = MReturned r"
proof (induction k arbitrary: s)
  case 0
  then show ?case by (cases "main s") (auto split: sum.splits)
next
  case (Suc k)
  from step_main_left[OF Suc.prems(3), of s] obtain s1 where
    s1: "step_main n (main s) s = Some s1" "main_steps_left n (main s1) = k"
      "panicked s1 = panicked s" "terminated s1 = terminated s"
    by blast
  with Suc.prems(1,2) have "step n Main s = Some s1" by (simp add: step_def)
  moreover from Suc.IH[of s1] s1 Suc.prems(1,2)
  obtain s' r where "exec n (replicate k Main) s1 = Some s'" "main s' = MReturned r" by auto
  ultimately show ?case by auto
qed

lemma stuck_after_error:
  "main s = MReturned (ReturnErr err) \<Longrightarrow> families s = [] \<Longrightarrow> workers s = [] \<Longrightarrow>
     coordinator s = None \<Longrightarrow> \<not> dying s \<Longrightarrow> step n t s = None"
  by (cases t) (auto simp: step_def step_caller_def step_runtime_def)

lemma exec_stuck:
  assumes "\<And>t. step n t s = None" "exec n sched s = Some s'"
  shows "s' = s"
  using assms by (cases sched) auto

lemma returned_error_fresh:
  assumes "AllPlugins n sched = Some s" "main s = MReturned (ReturnErr err)"
  shows "s = AllPlugins_start\<lparr>main := MReturned (ReturnErr err)\<rparr>"
proof (cases sched)
  case Nil
  with assms show ?thesis by (simp add: AllPlugins_def AllPlugins_start_def)
next
  case (Cons t ts)
  with assms(1) obtain s1 where s1: "step n t AllPlugins_start = Some s1" "exec n ts s1 = Some s"
    by (auto simp: AllPlugins_def split: option.splits)
  have I: "run_inv n s" using assms(1) by (rule inv_AllPlugins)
  with assms(2) have l: "PluginFamilies n = Inl err" by (simp add: run_inv_def)
  from s1(1) have t: "t = Main"
    by (cases t) (auto simp: step_def step_caller_def step_runtime_def AllPlugins_start_def)
  with s1(1) l have e: "s1 = AllPlugins_start\<lparr>main := MReturned (ReturnErr err)\<rparr>"
    by (auto simp: step_def AllPlugins_start_def)
  have "\<And>t. step n t s1 = None"
    unfolding e by (rule stuck_after_error) (simp_all add: AllPlugins_start_def)
  from exec_stuck[OF this s1(2)] e show ?thesis by simp
qed


subsection \<open>After the channels are closed\<close>

lemma emitted_when_closed:
  assumes "AllPlugins n sched = Some s" "closed (plugChan s)"
  shows "mset (emitted s) = mset (expected_records n)"
proof -
  have I: "run_inv n s" using assms(1) by (rule inv_AllPlugins)
  then show ?thesis using todo_empty[OF I assms(2)] by (simp add: run_inv_def)
qed

lemma exited_family_steps_not:
  "i < length (families s) \<Longrightarrow> families s ! i = FExited \<Longrightarrow> step n (Family i) s = None"
  by (simp add: step_def)

lemma no_family_step_when_joined:
  assumes I: "run_inv n s" and z: "wgf s = 0"
  shows "step n (Family i) s = None"
proof (cases "i < length (families s)")
  case True
  then have "families s ! i = FExited" using families_exited[OF I z] by simp
  with True show ?thesis by (rule exited_family_steps_not)
next
  case False
  then show ?thesis by (simp add: step_def)
qed

lemma idle_worker_step:
  assumes "\<not> worker_holding (wpc (workers s ! i))" "i < length (workers s)"
    "step n (Worker i) s = Some s'"
  shows "plugChan s' = plugChan s \<and> received s' = received s \<and> wgp s' = wgp s"
  using assms
  by (cases "wpc (workers s ! i)")
    (auto simp: step_def split: if_splits list.splits option.splits)

lemma step_emitted_after_close:
  assumes I: "run_inv n s" and c: "closed (plugChan s)" and st: "step n t s = Some s'"
  shows "emitted s' = emitted s"
proof (cases t)
  case Main
  with st closed_plugChan(5)[OF I c] show ?thesis by (simp add: step_def split: if_splits)
next
  case (Family i)
  with st no_family_step_when_joined[OF I closed_plugChan(2)[OF I c], of i] show ?thesis by simp
next
  case (Worker i)
  with st have i: "i < length (workers s)" by (simp add: step_def split: if_splits)
  have "holding s = 0" using nothing_pending(3)[OF I closed_plugChan(3)[OF I c]] .
  then have "\<not> worker_holding (wpc (workers s ! i))"
    using i filter_length_zero[of "\<lambda>w. worker_holding (wpc w)" "workers s" "workers s ! i"]
    by (simp add: holding_def)
  from idle_worker_step[OF this i] st Worker show ?thesis by (simp add: emitted_def)
next
  case Coordinator
  with st closed_plugChan(1)[OF I c] show ?thesis by (simp add: step_def split: if_splits)
next
  case Caller
  with st show ?thesis
    by (auto simp: step_def step_caller_def emitted_def split: if_splits list.splits)
next
  case Runtime
  with st show ?thesis
    by (auto simp: step_def step_runtime_def emitted_def split: if_splits)
qed

lemma step_idbuf_after_close:
  assumes I: "run_inv n s" and c: "closed (idChan s)" and st: "step n t s = Some s'"
  shows "length (buf (idChan s')) \<le> length (buf (idChan s))"
proof (cases t)
  case Main
  with st closed_idChan(2)[OF I c] show ?thesis by (simp add: step_def split: if_splits)
next
  case (Family i)
  with st no_family_step_when_joined[OF I closed_idChan(1)[OF I c], of i] show ?thesis by simp
next
  case (Worker i)
  with st show ?thesis
    by (cases "wpc (workers s ! i)")
      (auto simp: step_def panic_def split: if_splits list.splits option.splits sum.splits)
next
  case Coordinator
  with st show ?thesis
    by (cases "the (coordinator s)")
      (auto simp: step_def panic_def split: if_splits option.splits)
next
  case Caller
  with st show ?thesis
    by (auto simp: step_def step_caller_def split: if_splits list.splits)
next
  case Runtime
  with st show ?thesis
    by (auto simp: step_def step_runtime_def split: if_splits)
qed

lemma all_spawned_when_returned:
  assumes I: "run_inv n s" and m: "main s = MReturned ReturnChan"
  shows "all_spawned n (length (families s))"
  using I m by (simp add: run_inv_def)

lemma step_idbuf_counted:
  assumes I: "run_inv n s" and st: "step n t s = Some s'"
  shows "int (length (buf (idChan s'))) \<le> wgp s"
proof -
  have w: "wgp s = int (length (buf (idChan s))) + int (sending s) + int (holding s)"
    using I by (rule counters_as_counts)
  then have le: "int (length (buf (idChan s))) \<le> wgp s" by simp
  show ?thesis
  proof (cases t)
    case Main
    with st le show ?thesis
      by (cases "(n, main s, s)" rule: step_main.cases)
        (auto simp: step_def split: if_splits sum.splits)
  next
    case (Family i)
    with st have i: "i < length (families s)" by (simp add: step_def split: if_splits)
    show ?thesis
    proof (cases "fam_sending (families s ! i)")
      case True
      then have "families s ! i \<in> set (filter fam_sending (families s))"
        using i by simp
      then have "0 < sending s" unfolding sending_def by (rule length_pos_if_in_set)
      with w have "int (length (buf (idChan s))) + 1 \<le> wgp s" by simp
      with st Family i True show ?thesis
        by (cases "(n, families s ! i, s)" rule: step_family.cases)
          (auto simp: step_def panic_def split: if_splits option.splits sum.splits)
    next
      case False
      with st Family i le show ?thesis
        by (cases "(n, families s ! i, s)" rule: step_family.cases)
          (auto simp: step_def panic_def split: if_splits option.splits sum.splits)
    qed
  next
    case (Worker i)
    have "length rest \<le> length (buf (idChan s))" if "buf (idChan s) = pid # rest" for pid rest
      using that by simp
    with st le Worker show ?thesis
      by (cases "wpc (workers s ! i)")
        (auto simp: step_def panic_def split: if_splits list.splits option.splits sum.splits)
  next
    case Coordinator
    with st le show ?thesis
      by (cases "the (coordinator s)")
        (auto simp: step_def panic_def split: if_splits option.splits)
  next
    case Caller
    with st le show ?thesis
      by (auto simp: step_def step_caller_def split: if_splits list.splits)
  next
    case Runtime
    with st le show ?thesis
      by (auto simp: step_def step_runtime_def split: if_splits)
  qed
qed


subsection \<open>The expected records\<close>

lemma emitted_subset:
  assumes "AllPlugins n sched = Some s"
  shows "mset (emitted s) \<subseteq># mset (expected_records n)"
proof -
  have "run_inv n s" using assms by (rule inv_AllPlugins)
  then have "mset (expected_records n) = mset (emitted s) + todo n s" by (simp add: run_inv_def)
  then show ?thesis by simp
qed

lemma upt_head: "[j..<Suc (j + m)] = j # [Suc j..<Suc (j + m)]"
  by (simp add: upt_conv_Cons)

lemma leaves_records_all_ok:
  assumes "\<And>k. k < length plugins \<Longrightarrow>
      PluginDetails n (i, j + k) (PluginID (plugins ! k)) = Inr (Some (pd (j + k)))"
  shows "leaves_records n i j plugins = map pd [j..<j + length plugins] \<and>
         leaves_nil_free n i j plugins"
  using assms
proof (induction plugins arbitrary: j)
  case Nil then show ?case by simp
next
  case (Cons plugin rest)
  have h: "PluginDetails n (i, j) (PluginID plugin) = Inr (Some (pd j))"
    using Cons.prems[of 0] by simp
  have "leaves_records n i (j + 1) rest = map pd [j + 1..<j + 1 + length rest] \<and>
        leaves_nil_free n i (j + 1) rest"
  proof (rule Cons.IH)
    fix k assume "k < length rest"
    then show "PluginDetails n (i, j + 1 + k) (PluginID (rest ! k)) = Inr (Some (pd (j + 1 + k)))"
      using Cons.prems[of "Suc k"] by simp
  qed
  with h show ?case
    by (simp add: leaf_records_def leaf_nil_free_def upt_head del: upt_Suc)
qed

lemma families_records_all_ok:
  assumes "\<And>k. k < length fams \<Longrightarrow>
      FamilyDetails n (i + k) (ID (fams ! k)) = Inr (Some (fd (i + k)))"
    and "\<And>k j. k < length fams \<Longrightarrow> j < length (Plugins (fd (i + k))) \<Longrightarrow>
      PluginDetails n (i + k, j) (PluginID (Plugins (fd (i + k)) ! j)) = Inr (Some (pd (i + k) j))"
  shows "families_records n i fams =
           concat (map (\<lambda>k. map (pd k) [0..<length (Plugins (fd k))]) [i..<i + length fams]) \<and>
         families_nil_free n i fams"
  using assms
proof (induction fams arbitrary: i)
  case Nil then show ?case by simp
next
  case (Cons family rest)
  have f: "FamilyDetails n i (ID family) = Inr (Some (fd i))"
    using Cons.prems(1)[of 0] by simp
  have l: "leaves_records n i 0 (Plugins (fd i)) = map (pd i) [0..<0 + length (Plugins (fd i))] \<and>
        leaves_nil_free n i 0 (Plugins (fd i))"
  proof (rule leaves_records_all_ok)
    fix k assume "k < length (Plugins (fd i))"
    then show "PluginDetails n (i, 0 + k) (PluginID (Plugins (fd i) ! k)) = Inr (Some (pd i (0 + k)))"
      using Cons.prems(2)[of 0 k] by simp
  qed
  have r: "families_records n (i + 1) rest =
           concat (map (\<lambda>k. map (pd k) [0..<length (Plugins (fd k))]) [i + 1..<i + 1 + length rest]) \<and>
         families_nil_free n (i + 1) rest"
  proof (rule Cons.IH)
    fix k assume "k < length rest"
    then show "FamilyDetails n (i + 1 + k) (ID (rest ! k)) = Inr (Some (fd (i + 1 + k)))"
      using Cons.prems(1)[of "Suc k"] by simp
  next
    fix k j assume "k < length rest" "j < length (Plugins (fd (i + 1 + k)))"
    then show "PluginDetails n (i + 1 + k, j) (PluginID (Plugins (fd (i + 1 + k)) ! j)) =
        Inr (Some (pd (i + 1 + k) j))"
      using Cons.prems(2)[of "Suc k" j] by simp
  qed
  from f l r show ?case
    by (simp add: family_records_def family_nil_free_def upt_head del: upt_Suc)
qed

lemma leaf_records_FamilyDetails_update [simp]:
  "leaf_records (n\<lparr>FamilyDetails := f\<rparr>) = leaf_records n"
  by (rule ext)+ (simp add: leaf_records_def)

lemma leaves_records_FamilyDetails_update [simp]:
  "leaves_records (n\<lparr>FamilyDetails := f\<rparr>) i j plugins = leaves_records n i j plugins"
  by (induction plugins arbitrary: j) simp_all






subsection \<open>The concrete runs\<close>

lemma run_ok:
  "\<exists>s. AllPlugins service_ok sched_ok = Some s \<and> closed (plugChan s) \<and>
       emitted s = [21, 11, 22, 12, 13]"
proof -
  have "case AllPlugins service_ok sched_ok of
          None \<Rightarrow> False
        | Some s \<Rightarrow> closed (plugChan s) \<and> emitted s = [21, 11, 22, 12, 13]"
    by code_simp
  then show ?thesis
    by (cases "AllPlugins service_ok sched_ok") auto
qed

lemma run_leaf_fails:
  "\<exists>s. AllPlugins service_leaf_fails sched_leaf_fails = Some s \<and> closed (plugChan s) \<and>
       emitted s = [11, 13, 21, 22] \<and> sum_list (map dequeued (workers s)) = 5"
proof -
  have "case AllPlugins service_leaf_fails sched_leaf_fails of
          None \<Rightarrow> False
        | Some s \<Rightarrow> closed (plugChan s) \<and> emitted s = [11, 13, 21, 22] \<and>
            sum_list (map dequeued (workers s)) = 5"
    by code_simp
  then show ?thesis
    by (cases "AllPlugins service_leaf_fails sched_leaf_fails") auto
qed


lemma run_ok_closed:
  "\<exists>s s'. AllPlugins service_ok sched_ok = Some s \<and> closed (idChan s) \<and>
       closed (plugChan s) \<and> step service_ok (Worker 0) s = Some s' \<and>
       wpc (workers s' ! 0) = WExited"
proof -
  have "case AllPlugins service_ok sched_ok of
          None \<Rightarrow> False
        | Some s \<Rightarrow> closed (idChan s) \<and> closed (plugChan s) \<and>
            (case step service_ok (Worker 0) s of
               None \<Rightarrow> False
             | Some s' \<Rightarrow> wpc (workers s' ! 0) = WExited)"
    by code_simp
  then show ?thesis
    by (cases "AllPlugins service_ok sched_ok")
      (auto split: option.splits)
qed

lemma run_ok_37:
  "\<exists>s s'. AllPlugins service_ok (take 37 sched_ok) = Some s \<and>
       buf (idChan s) = [] \<and> sending s = 1 \<and> holding s = 2 \<and>
       step service_ok (Family 0) s = Some s' \<and> buf (idChan s') = [((0, 1), 12)]"
proof -
  have "case AllPlugins service_ok (take 37 sched_ok) of
          None \<Rightarrow> False
        | Some s \<Rightarrow> buf (idChan s) = [] \<and> sending s = 1 \<and> holding s = 2 \<and>
            (case step service_ok (Family 0) s of
               None \<Rightarrow> False
             | Some s' \<Rightarrow> buf (idChan s') = [((0, 1), 12)])"
    by code_simp
  then show ?thesis
    by (cases "AllPlugins service_ok (take 37 sched_ok)") (auto split: option.splits)
qed

lemma run_ok_57:
  "\<exists>s. AllPlugins service_ok (take 57 sched_ok) = Some s \<and>
       coordinator s = Some CWaitFamilies \<and> wgf s = 0 \<and> wgp s = 0"
proof -
  have "case AllPlugins service_ok (take 57 sched_ok) of
          None \<Rightarrow> False
        | Some s \<Rightarrow> coordinator s = Some CWaitFamilies \<and> wgf s = 0 \<and> wgp s = 0"
    by code_simp
  then show ?thesis
    by (cases "AllPlugins service_ok (take 57 sched_ok)") auto
qed

lemma run_ok_45:
  "\<exists>s. AllPlugins service_ok (take 45 sched_ok) = Some s \<and>
       main s = MReturned ReturnChan \<and> in_flight s = 2"
proof -
  have "case AllPlugins service_ok (take 45 sched_ok) of
          None \<Rightarrow> False
        | Some s \<Rightarrow> main s = MReturned ReturnChan \<and> in_flight s = 2"
    by code_simp
  then show ?thesis
    by (cases "AllPlugins service_ok (take 45 sched_ok)") auto
qed

lemma run_ok_6:
  "\<exists>s. AllPlugins service_ok (replicate 6 Main) = Some s \<and>
       main s = MSpawnWorkers 2 \<and> length (workers s) = 2"
proof -
  have "case AllPlugins service_ok (replicate 6 Main) of
          None \<Rightarrow> False
        | Some s \<Rightarrow> main s = MSpawnWorkers 2 \<and> length (workers s) = 2"
    by code_simp
  then show ?thesis
    by (cases "AllPlugins service_ok (replicate 6 Main)") auto
qed

lemma run_ok_exit:
  "\<exists>s. AllPlugins service_ok (sched_ok @ [Worker 0]) = Some s \<and>
       wpc (workers s ! 0) = WExited \<and> length (workers s) = 10"
proof -
  have "case AllPlugins service_ok (sched_ok @ [Worker 0]) of
          None \<Rightarrow> False
        | Some s \<Rightarrow> wpc (workers s ! 0) = WExited \<and> length (workers s) = 10"
    by code_simp
  then show ?thesis
    by (cases "AllPlugins service_ok (sched_ok @ [Worker 0])") auto
qed

lemma run_leaf_fails_end:
  "\<exists>s. AllPlugins service_leaf_fails sched_leaf_fails_end = Some s \<and>
       ended service_leaf_fails s \<and> \<not> terminated s \<and> received s = [11, 13, 21, 22]"
proof -
  have "case AllPlugins service_leaf_fails sched_leaf_fails_end of
          None \<Rightarrow> False
        | Some s \<Rightarrow> main s = MReturned ReturnChan \<and> list_all (\<lambda>pc. pc = FExited) (families s) \<and>
            list_all (\<lambda>w. wpc w = WExited) (workers s) \<and> coordinator s = Some CExited \<and>
            buf (plugChan s) = [] \<and> \<not> dying s \<and> \<not> terminated s \<and>
            received s = [11, 13, 21, 22]"
    by code_simp
  then obtain s where
    "AllPlugins service_leaf_fails sched_leaf_fails_end = Some s" "main s = MReturned ReturnChan"
    "\<forall>pc \<in> set (families s). pc = FExited" "\<forall>w \<in> set (workers s). wpc w = WExited"
    "coordinator s = Some CExited" "buf (plugChan s) = []" "\<not> dying s" "\<not> terminated s"
    "received s = [11, 13, 21, 22]"
    by (cases "AllPlugins service_leaf_fails sched_leaf_fails_end") (auto simp: list_all_iff)
  then show ?thesis using no_step_when_all_exited[of s ReturnChan service_leaf_fails] by blast
qed

lemma run_null:
  "\<exists>s. AllPlugins service_null sched_null = Some s \<and> terminated s \<and>
       main s = MReturned ReturnChan \<and> \<not> closed (plugChan s) \<and> emitted s = [11] \<and>
       wpc (workers s ! 1) = WPanicked"
proof -
  have "case AllPlugins service_null sched_null of
          None \<Rightarrow> False
        | Some s \<Rightarrow> terminated s \<and> main s = MReturned ReturnChan \<and> \<not> closed (plugChan s) \<and>
            emitted s = [11] \<and> wpc (workers s ! 1) = WPanicked"
    by code_simp
  then show ?thesis
    by (cases "AllPlugins service_null sched_null") auto
qed

lemma run_family_null:
  "\<exists>s. AllPlugins service_family_null sched_family_null = Some s \<and> terminated s \<and>
       main s = MReturned ReturnChan \<and> \<not> closed (plugChan s) \<and> emitted s = []"
proof -
  have "case AllPlugins service_family_null sched_family_null of
          None \<Rightarrow> False
        | Some s \<Rightarrow> terminated s \<and> main s = MReturned ReturnChan \<and> \<not> closed (plugChan s) \<and>
            emitted s = []"
    by code_simp
  then show ?thesis
    by (cases "AllPlugins service_family_null sched_family_null") auto
qed

lemma expected_service_null:
  "expected_records service_null = [11, 13, 21, 22]" "expected_count service_null = 5"
  "PluginDetails service_null (0, 1) 12 = Inr None"
  by code_simp+

lemma expected_service_family_null:
  "expected_count service_family_null = 2" "FamilyDetails service_family_null 0 1 = Inr None"
  by code_simp+

lemma nil_service_null:
  "\<not> nil_free service_null" "\<forall>i famID. FamilyDetails service_null i famID \<noteq> Inr None"
  "\<not> nil_free service_family_null"
proof -
  show "\<not> nil_free service_null" "\<not> nil_free service_family_null" by code_simp+
  show "\<forall>i famID. FamilyDetails service_null i famID \<noteq> Inr None"
    by (simp add: service_null_def service_ok_def)
qed

section \<open>The claims\<close>

text \<open>
  C1 says that every run of \<open>AllPlugins\<close> emits as many records as there are plugin IDs of
  families whose \<open>FamilyDetails\<close> fetch succeeded whose own \<open>PluginDetails\<close> fetch
  succeeded. The code tests \<open>err != nil\<close> only and then dereferences the reply, which
  is nil when the service answered 200 with the body \<open>null\<close>. With \<open>service_null\<close>, where
  the request for plugin 12 is answered so, the count of the claim is 5 (4 without that
  plugin), and:
  \<^item> under \<open>sched_null\<close> the worker holding plugin 12 dereferences nil, the program is
    terminated with one record emitted and the channel not closed, and that is the end
    of the run;
  \<^item> in no run at all is the channel ever closed, no run emits 5 records, and no run
    comes to its end but by the runtime terminating the program.

  The fetch of a family has the same defect: with \<open>service_family_null\<close>, where the
  request for family 1 is answered with \<open>null\<close>, the count is 2 (the plugins of
  family 2), under \<open>sched_family_null\<close> the program is terminated with nothing emitted,
  and again no run comes to its end but by the runtime terminating the program.
\<close>

theorem AllPlugins_null_reply:
  "PluginDetails service_null (0, 1) 12 = Inr None
   \<and> expected_count service_null = 5
   \<and> (\<exists>s. AllPlugins service_null sched_null = Some s \<and> ended service_null s \<and>
         terminated s \<and> wpc (workers s ! 1) = WPanicked \<and>
         main s = MReturned ReturnChan \<and> \<not> closed (plugChan s) \<and> emitted s = [11])
   \<and> \<not> (\<exists>sched s. AllPlugins service_null sched = Some s \<and> closed (plugChan s))
   \<and> \<not> (\<exists>sched s. AllPlugins service_null sched = Some s \<and>
           length (emitted s) = expected_count service_null)
   \<and> \<not> (\<exists>sched s. AllPlugins service_null sched = Some s \<and> ended service_null s \<and>
           \<not> terminated s)
   \<and> FamilyDetails service_family_null 0 1 = Inr None
   \<and> expected_count service_family_null = 2
   \<and> (\<exists>s. AllPlugins service_family_null sched_family_null = Some s \<and>
         ended service_family_null s \<and> terminated s \<and>
         main s = MReturned ReturnChan \<and> \<not> closed (plugChan s) \<and> emitted s = [])
   \<and> \<not> (\<exists>sched s. AllPlugins service_family_null sched = Some s \<and>
           ended service_family_null s \<and> \<not> terminated s)"
proof -
  from run_null obtain s where
    s: "AllPlugins service_null sched_null = Some s" "terminated s"
      "main s = MReturned ReturnChan" "\<not> closed (plugChan s)" "emitted s = [11]"
      "wpc (workers s ! 1) = WPanicked"
    by blast
  then have 1: "\<exists>s. AllPlugins service_null sched_null = Some s \<and> ended service_null s \<and>
         terminated s \<and> wpc (workers s ! 1) = WPanicked \<and>
         main s = MReturned ReturnChan \<and> \<not> closed (plugChan s) \<and> emitted s = [11]"
    using terminated_ended[of s service_null] by blast
  have 2: "\<not> (\<exists>sched s. AllPlugins service_null sched = Some s \<and>
           length (emitted s) = expected_count service_null)"
  proof
    assume "\<exists>sched s. AllPlugins service_null sched = Some s \<and>
           length (emitted s) = expected_count service_null"
    then obtain sched t where t: "AllPlugins service_null sched = Some t"
      "length (emitted t) = expected_count service_null" by blast
    have "size (mset (emitted t)) \<le> size (mset (expected_records service_null))"
      using emitted_subset[OF t(1)] by (rule size_mset_mono)
    with t(2) show False by (simp add: expected_service_null)
  qed
  from run_family_null obtain u where
    u: "AllPlugins service_family_null sched_family_null = Some u" "terminated u"
      "main u = MReturned ReturnChan" "\<not> closed (plugChan u)" "emitted u = []"
    by blast
  then have 3: "\<exists>s. AllPlugins service_family_null sched_family_null = Some s \<and>
         ended service_family_null s \<and> terminated s \<and>
         main s = MReturned ReturnChan \<and> \<not> closed (plugChan s) \<and> emitted s = []"
    using terminated_ended[of u service_family_null] by blast
  have 4: "\<not> (\<exists>sched s. AllPlugins service_null sched = Some s \<and> closed (plugChan s))"
    using nil_leaf_never_closed[OF nil_service_null(2,1)] by blast
  have 5: "\<not> (\<exists>sched s. AllPlugins service_null sched = Some s \<and> ended service_null s \<and>
           \<not> terminated s)"
    using nil_run_dies[OF nil_service_null(1)] by blast
  have 6: "\<not> (\<exists>sched s. AllPlugins service_family_null sched = Some s \<and>
           ended service_family_null s \<and> \<not> terminated s)"
    using nil_run_dies[OF nil_service_null(3)] by blast
  from 1 2 3 4 5 6 expected_service_null(2,3) expected_service_family_null show ?thesis
    by blast
qed

text \<open>
  C2. If the listing succeeds with \<open>fams\<close>, the \<open>FamilyDetails\<close> call for each listed
  family returns details (\<open>fd i\<close> for the family at index \<open>i\<close>) and the \<open>PluginDetails\<close>
  call for each plugin they list returns a record (\<open>pd i j\<close> for the plugin at index \<open>j\<close>
  of family \<open>i\<close>), then in every run: nothing panics and the program does not die; the
  records sent so far are among these records; once the channel is closed they are
  exactly these records, as a multiset, whatever the order; the run is finite; when no
  step is left the channel is closed and the caller has received exactly these records;
  and the run can always be continued to that end. Read by their IDs (\<open>rid\<close>, when each
  record carries the ID it was asked for), the records are the multiset of all plugin
  IDs listed across all families.
\<close>

theorem AllPlugins_all_succeed:
  assumes listing: "PluginFamilies n = Inr fams"
    and fam_ok: "\<forall>i < length fams. FamilyDetails n i (ID (fams ! i)) = Inr (Some (fd i))"
    and leaf_ok: "\<forall>i < length fams. \<forall>j < length (Plugins (fd i)).
        PluginDetails n (i, j) (PluginID (Plugins (fd i) ! j)) = Inr (Some (pd i j))"
    and run: "AllPlugins n sched = Some s"
  shows "\<not> panicked s \<and> \<not> dying s \<and> \<not> terminated s
       \<and> mset (emitted s) \<subseteq>#
           mset (concat (map (\<lambda>i. map (pd i) [0..<length (Plugins (fd i))]) [0..<length fams]))
       \<and> (closed (plugChan s) \<longrightarrow>
            mset (emitted s) =
              mset (concat (map (\<lambda>i. map (pd i) [0..<length (Plugins (fd i))])
                [0..<length fams])))
       \<and> length sched \<le> steps_left n AllPlugins_start
       \<and> (ended n s \<longrightarrow>
            closed (plugChan s) \<and> buf (plugChan s) = [] \<and>
            mset (received s) =
              mset (concat (map (\<lambda>i. map (pd i) [0..<length (Plugins (fd i))])
                [0..<length fams])))
       \<and> (\<exists>sched' s'. AllPlugins n (sched @ sched') = Some s' \<and> ended n s' \<and>
            closed (plugChan s') \<and>
            mset (received s') =
              mset (concat (map (\<lambda>i. map (pd i) [0..<length (Plugins (fd i))])
                [0..<length fams])))
       \<and> ((\<forall>i < length fams. \<forall>j < length (Plugins (fd i)).
              rid (pd i j) = PluginID (Plugins (fd i) ! j)) \<and> closed (plugChan s) \<longrightarrow>
            image_mset rid (mset (emitted s)) =
              mset (concat (map (\<lambda>i. map PluginID (Plugins (fd i))) [0..<length fams])))"
proof -
  let ?M = "concat (map (\<lambda>i. map (pd i) [0..<length (Plugins (fd i))]) [0..<length fams])"
  have "families_records n 0 fams =
          concat (map (\<lambda>k. map (pd k) [0..<length (Plugins (fd k))]) [0..<0 + length fams]) \<and>
        families_nil_free n 0 fams"
    using fam_ok leaf_ok by (intro families_records_all_ok) simp_all
  with listing have e: "expected_records n = ?M" and nf: "nil_free n"
    by (simp_all add: expected_records_def nil_free_def)
  have I: "run_inv n s" using run by (rule inv_AllPlugins)
  have 1: "\<not> panicked s \<and> \<not> dying s \<and> \<not> terminated s"
    using I safe_AllPlugins[OF nf run] by (simp add: run_inv_def)
  have 2: "mset (emitted s) \<subseteq># mset ?M" using emitted_subset[OF run] e by simp
  have 3: "closed (plugChan s) \<longrightarrow> mset (emitted s) = mset ?M"
    using emitted_when_closed[OF run] e by simp
  have 4: "length sched \<le> steps_left n AllPlugins_start" using run by (rule run_finite)
  have 5: "ended n s \<longrightarrow>
      closed (plugChan s) \<and> buf (plugChan s) = [] \<and> mset (received s) = mset ?M"
    using run_end_complete[OF run _ _ listing] 1 e by simp
  have 6: "\<exists>sched' s'. AllPlugins n (sched @ sched') = Some s' \<and> ended n s' \<and>
      closed (plugChan s') \<and> mset (received s') = mset ?M"
    using run_completes[OF nf listing run] e by auto
  have 7: "image_mset rid (mset (emitted s)) =
      mset (concat (map (\<lambda>i. map PluginID (Plugins (fd i))) [0..<length fams]))"
    if ids: "\<forall>i < length fams. \<forall>j < length (Plugins (fd i)).
        rid (pd i j) = PluginID (Plugins (fd i) ! j)" and c: "closed (plugChan s)"
  proof -
    have h: "map (\<lambda>j. rid (pd i j)) [0..<length (Plugins (fd i))] = map PluginID (Plugins (fd i))"
      if "i < length fams" for i
      using ids that by (intro nth_equalityI) simp_all
    have A: "map (\<lambda>i. map (\<lambda>j. rid (pd i j)) [0..<length (Plugins (fd i))]) [0..<length fams] =
          map (\<lambda>i. map PluginID (Plugins (fd i))) [0..<length fams]"
      by (rule map_cong) (simp_all add: h)
    have "map rid ?M =
        concat (map (\<lambda>i. map (\<lambda>j. rid (pd i j)) [0..<length (Plugins (fd i))])
          [0..<length fams])"
      by (simp add: map_concat comp_def)
    then have "map rid ?M =
        concat (map (\<lambda>i. map PluginID (Plugins (fd i))) [0..<length fams])"
      by (simp only: A)
    moreover have "image_mset rid (mset (emitted s)) = mset (map rid ?M)"
      using 3 c by simp
    ultimately show ?thesis by simp
  qed
  from 1 2 3 4 5 6 7 show ?thesis by blast
qed

theorem AllPlugins_all_succeed_witness:
  "(\<exists>s. AllPlugins service_ok sched_ok = Some s \<and> closed (plugChan s) \<and>
       \<not> dying s \<and> mset (emitted s) = mset [11, 12, 13, 21, 22] \<and>
       (\<exists>sched' s'. AllPlugins service_ok (sched_ok @ sched') = Some s' \<and>
          ended service_ok s' \<and> mset (received s') = mset [11, 12, 13, 21, 22]))
   \<and> (\<exists>sched s. AllPlugins service_twice sched = Some s \<and> ended service_twice s \<and>
       closed (plugChan s) \<and> mset (received s) = mset [11, 12])"
proof -
  from run_ok obtain s where
    r: "AllPlugins service_ok sched_ok = Some s" and c: "closed (plugChan s)"
    by blast
  have l: "PluginFamilies service_ok = Inr [\<lparr>ID = 1\<rparr>, \<lparr>ID = 2\<rparr>]"
    by (simp add: service_ok_def)
  have f: "\<forall>i < length [\<lparr>ID = 1\<rparr>, \<lparr>ID = 2 :: int64\<rparr>].
      FamilyDetails service_ok i (ID ([\<lparr>ID = 1\<rparr>, \<lparr>ID = 2\<rparr>] ! i)) = Inr (Some (listed i))"
    by (simp add: service_ok_def listed_def less_Suc_eq)
  have p: "\<forall>i < length [\<lparr>ID = 1\<rparr>, \<lparr>ID = 2 :: int64\<rparr>]. \<forall>j < length (Plugins (listed i)).
      PluginDetails service_ok (i, j) (PluginID (Plugins (listed i) ! j)) =
        Inr (Some ((\<lambda>i j. PluginID (Plugins (listed i) ! j)) i j))"
    by (simp add: service_ok_def)
  have i: "\<forall>i < length [\<lparr>ID = 1\<rparr>, \<lparr>ID = 2 :: int64\<rparr>]. \<forall>j < length (Plugins (listed i)).
      (\<lambda>x. x) ((\<lambda>i j. PluginID (Plugins (listed i) ! j)) i j) = PluginID (Plugins (listed i) ! j)"
    by simp
  have m: "concat (map (\<lambda>i. map ((\<lambda>i j. PluginID (Plugins (listed i) ! j)) i)
        [0..<length (Plugins (listed i))]) [0..<length [\<lparr>ID = 1\<rparr>, \<lparr>ID = 2 :: int64\<rparr>]]) =
      [11, 12, 13, 21, 22]"
    by (simp add: listed_def upt_rec)
  from AllPlugins_all_succeed [OF l f p r, of "\<lambda>x. x"] c i r
  have 1: "\<exists>s. AllPlugins service_ok sched_ok = Some s \<and> closed (plugChan s) \<and>
       \<not> dying s \<and> mset (emitted s) = mset [11, 12, 13, 21, 22] \<and>
       (\<exists>sched' s'. AllPlugins service_ok (sched_ok @ sched') = Some s' \<and>
          ended service_ok s' \<and> mset (received s') = mset [11, 12, 13, 21, 22])"
    unfolding m by blast
  have l': "PluginFamilies service_twice = Inr [\<lparr>ID = 1\<rparr>, \<lparr>ID = 1\<rparr>]"
    by (simp add: service_twice_def)
  have f': "\<forall>i < length [\<lparr>ID = 1\<rparr>, \<lparr>ID = 1 :: int64\<rparr>].
      FamilyDetails service_twice i (ID ([\<lparr>ID = 1\<rparr>, \<lparr>ID = 1\<rparr>] ! i)) =
        Inr (Some ((\<lambda>i. \<lparr>Plugins = [\<lparr>PluginID = 11\<rparr>]\<rparr>) i))"
    by (simp add: service_twice_def)
  have p': "\<forall>i < length [\<lparr>ID = 1\<rparr>, \<lparr>ID = 1 :: int64\<rparr>].
      \<forall>j < length (Plugins ((\<lambda>i. \<lparr>Plugins = [\<lparr>PluginID = 11\<rparr>]\<rparr>) i)).
      PluginDetails service_twice (i, j)
        (PluginID (Plugins ((\<lambda>i. \<lparr>Plugins = [\<lparr>PluginID = 11\<rparr>]\<rparr>) i) ! j)) =
        Inr (Some ((\<lambda>i j. 11 + of_nat i) i j))"
    by (simp add: service_twice_def)
  have r': "AllPlugins service_twice [] = Some AllPlugins_start"
    by (simp add: AllPlugins_def)
  from AllPlugins_all_succeed [OF l' f' p' r', of "\<lambda>x. x"]
  have 2: "\<exists>sched s. AllPlugins service_twice sched = Some s \<and> ended service_twice s \<and>
       closed (plugChan s) \<and> mset (received s) = mset [11, 12]"
    by (auto simp: upt_rec)
  from 1 2 show ?thesis by blast
qed

text \<open>
  C3. In every run of \<open>AllPlugins\<close> no goroutine panics (so nothing is sent on a closed
  channel), and: when the coordinator is about to close \<open>idChan\<close>, or has closed it, a
  goroutine was spawned for every listed family and each of them has exited; when the
  coordinator is about to close \<open>plugChan\<close>, or has closed it, the counter \<open>wgp\<close> is
  zero, \<open>idChan\<close> is closed and empty and no worker holds an ID. Hence once \<open>idChan\<close> is
  closed no step of any goroutine adds an ID to it, and once \<open>plugChan\<close> is closed no
  step sends a record on it.
\<close>

theorem AllPlugins_closing_order:
  assumes "AllPlugins n sched = Some s"
  shows "\<not> panicked s
       \<and> (coordinator s = Some CCloseIds \<or> closed (idChan s) \<longrightarrow>
            all_spawned n (length (families s)) \<and> (\<forall>pc \<in> set (families s). pc = FExited))
       \<and> (coordinator s = Some CClosePlugins \<or> closed (plugChan s) \<longrightarrow>
            wgp s = 0 \<and> closed (idChan s) \<and> buf (idChan s) = [] \<and> holding s = 0)
       \<and> (closed (idChan s) \<longrightarrow>
            (\<forall>t s'. step n t s = Some s' \<longrightarrow>
               length (buf (idChan s')) \<le> length (buf (idChan s))))
       \<and> (closed (plugChan s) \<longrightarrow>
            (\<forall>t s'. step n t s = Some s' \<longrightarrow> emitted s' = emitted s))"
proof -
  have I: "run_inv n s" using assms by (rule inv_AllPlugins)
  have 1: "\<not> panicked s" using I by (simp add: run_inv_def)
  have 2: "all_spawned n (length (families s)) \<and> (\<forall>pc \<in> set (families s). pc = FExited)"
    if "coordinator s = Some CCloseIds \<or> closed (idChan s)"
  proof -
    from that I have z: "wgf s = 0" and c: "coordinator s \<noteq> None"
      using closed_idChan(1,3)[OF I] by (auto simp: run_inv_def)
    from c I have "main s = MReturned ReturnChan"
      by (auto simp: run_inv_def dest: main_Returned_if_coordinator)
    then show ?thesis
      using all_spawned_when_returned[OF I] families_exited[OF I z] by blast
  qed
  have 3: "wgp s = 0 \<and> closed (idChan s) \<and> buf (idChan s) = [] \<and> holding s = 0"
    if "coordinator s = Some CClosePlugins \<or> closed (plugChan s)"
  proof -
    from that I have z: "wgp s = 0" and c: "closed (idChan s)"
      using closed_plugChan(3,4)[OF I] by (auto simp: run_inv_def)
    then show ?thesis using nothing_pending[OF I z] by simp
  qed
  from 1 2 3 step_idbuf_after_close[OF I] step_emitted_after_close[OF I]
  show ?thesis by blast
qed

theorem AllPlugins_closing_order_witness:
  "\<exists>s s'. AllPlugins service_ok sched_ok = Some s \<and> closed (idChan s) \<and>
       closed (plugChan s) \<and> step service_ok (Worker 0) s = Some s' \<and>
       list_all (\<lambda>pc. pc = FExited) (families s) \<and> wgp s = 0 \<and>
       length (buf (idChan s')) \<le> length (buf (idChan s)) \<and> emitted s' = emitted s"
proof -
  from run_ok_closed obtain s s' where
    r: "AllPlugins service_ok sched_ok = Some s" and
    c: "closed (idChan s)" "closed (plugChan s)" and
    st: "step service_ok (Worker 0) s = Some s'"
    by blast
  from AllPlugins_closing_order [OF r] c st r show ?thesis
    unfolding list_all_iff by blast
qed

text \<open>
  C4. In every run of \<open>AllPlugins\<close> the counter \<open>wgp\<close> is the number of IDs queued on
  \<open>idChan\<close>, plus the family goroutines between their \<open>wgp.Add(1)\<close> and their send, plus
  the workers holding an ID they have not yet called \<open>wgp.Done()\<close> for. So every ID that
  a step makes visible on the queue was counted before that step; and the coordinator
  can only observe both counters at zero when every family goroutine has been spawned
  and has exited, the queue is empty, and no family or worker holds an ID.
\<close>

theorem AllPlugins_counted_before_visible:
  assumes "AllPlugins n sched = Some s"
  shows "wgp s = int (length (buf (idChan s))) + int (sending s) + int (holding s)
       \<and> (\<forall>t s'. step n t s = Some s' \<longrightarrow> int (length (buf (idChan s'))) \<le> wgp s)
       \<and> (coordinator s \<noteq> None \<and> wgf s = 0 \<and> wgp s = 0 \<longrightarrow>
            all_spawned n (length (families s)) \<and> (\<forall>pc \<in> set (families s). pc = FExited) \<and>
            buf (idChan s) = [] \<and> sending s = 0 \<and> holding s = 0)"
proof -
  have I: "run_inv n s" using assms by (rule inv_AllPlugins)
  have 3: "all_spawned n (length (families s)) \<and> (\<forall>pc \<in> set (families s). pc = FExited) \<and>
            buf (idChan s) = [] \<and> sending s = 0 \<and> holding s = 0"
    if "coordinator s \<noteq> None \<and> wgf s = 0 \<and> wgp s = 0"
  proof -
    from that I have "main s = MReturned ReturnChan"
      by (auto simp: run_inv_def dest: main_Returned_if_coordinator)
    with that show ?thesis
      using all_spawned_when_returned[OF I] families_exited[OF I] nothing_pending[OF I]
      by blast
  qed
  from counters_as_counts[OF I] step_idbuf_counted[OF I] 3 show ?thesis by blast
qed

theorem AllPlugins_counted_before_visible_witness:
  "(\<exists>s s'. AllPlugins service_ok (take 37 sched_ok) = Some s \<and>
       step service_ok (Family 0) s = Some s' \<and> buf (idChan s) = [] \<and>
       buf (idChan s') = [((0, 1), 12)] \<and> wgp s = 3)
   \<and> (\<exists>s. AllPlugins service_ok (take 57 sched_ok) = Some s \<and>
       coordinator s \<noteq> None \<and> wgf s = 0 \<and> wgp s = 0 \<and>
       list_all (\<lambda>pc. pc = FExited) (families s) \<and> buf (idChan s) = [] \<and> holding s = 0)"
proof -
  from run_ok_37 obtain s s' where
    r: "AllPlugins service_ok (take 37 sched_ok) = Some s" and
    q: "buf (idChan s) = []" "sending s = 1" "holding s = 2" and
    st: "step service_ok (Family 0) s = Some s'" "buf (idChan s') = [((0, 1), 12)]"
    by blast
  from AllPlugins_counted_before_visible [OF r] q have "wgp s = 3" by simp
  with r q st have 1: "\<exists>s s'. AllPlugins service_ok (take 37 sched_ok) = Some s \<and>
       step service_ok (Family 0) s = Some s' \<and> buf (idChan s) = [] \<and>
       buf (idChan s') = [((0, 1), 12)] \<and> wgp s = 3"
    by blast
  from run_ok_57 obtain t where
    r': "AllPlugins service_ok (take 57 sched_ok) = Some t" and
    z: "coordinator t = Some CWaitFamilies" "wgf t = 0" "wgp t = 0"
    by blast
  from AllPlugins_counted_before_visible [OF r'] z r'
  have 2: "\<exists>s. AllPlugins service_ok (take 57 sched_ok) = Some s \<and>
       coordinator s \<noteq> None \<and> wgf s = 0 \<and> wgp s = 0 \<and>
       list_all (\<lambda>pc. pc = FExited) (families s) \<and> buf (idChan s) = [] \<and> holding s = 0"
    unfolding list_all_iff by auto
  from 1 2 show ?thesis by blast
qed

text \<open>
  C5. \<open>AllPlugins\<close> returns a non-nil error exactly when the listing fails, and the
  error is the listing's: then the body returns in its first step, with no goroutine
  spawned, both counters zero, both channels empty and no channel handed to the caller.
  When it returns the channel the listing succeeded; no failure of a \<open>FamilyDetails\<close> or
  \<open>PluginDetails\<close> call changes what is returned, and none makes the program panic. The
  body is never blocked: run alone it returns after \<open>main_steps_left\<close> steps.
\<close>

theorem AllPlugins_returned_error:
  assumes "AllPlugins n sched = Some s"
  shows "(\<forall>err. main s = MReturned (ReturnErr err) \<longrightarrow>
            PluginFamilies n = Inl err \<and>
            s = AllPlugins_start\<lparr>main := MReturned (ReturnErr err)\<rparr>)
       \<and> (main s = MReturned ReturnChan \<longrightarrow> (\<exists>fams. PluginFamilies n = Inr fams))
       \<and> (\<forall>err. PluginFamilies n = Inl err \<longrightarrow>
            AllPlugins n [Main] = Some (AllPlugins_start\<lparr>main := MReturned (ReturnErr err)\<rparr>))
       \<and> (\<exists>s' r. AllPlugins n (replicate (main_steps_left n MPluginFamilies) Main) = Some s' \<and>
            main s' = MReturned r)
       \<and> \<not> panicked s"
proof -
  have I: "run_inv n s" using assms by (rule inv_AllPlugins)
  have 1: "\<forall>err. main s = MReturned (ReturnErr err) \<longrightarrow>
            PluginFamilies n = Inl err \<and>
            s = AllPlugins_start\<lparr>main := MReturned (ReturnErr err)\<rparr>"
    using I returned_error_fresh[OF assms] by (auto simp: run_inv_def)
  have 2: "main s = MReturned ReturnChan \<longrightarrow> (\<exists>fams. PluginFamilies n = Inr fams)"
    using I by (auto simp: run_inv_def all_spawned_def split: sum.splits)
  have 3: "\<forall>err. PluginFamilies n = Inl err \<longrightarrow>
            AllPlugins n [Main] = Some (AllPlugins_start\<lparr>main := MReturned (ReturnErr err)\<rparr>)"
    by (simp add: AllPlugins_def step_def AllPlugins_start_def)
  have 4: "\<exists>s' r. AllPlugins n (replicate (main_steps_left n MPluginFamilies) Main) = Some s' \<and>
            main s' = MReturned r"
    unfolding AllPlugins_def
    by (rule main_returns) (simp_all add: AllPlugins_start_def)
  from 1 2 3 4 I show ?thesis by (simp add: run_inv_def)
qed

theorem AllPlugins_returned_error_witness:
  "AllPlugins service_no_listing [Main] =
     Some (AllPlugins_start\<lparr>main := MReturned (ReturnErr (Error ''connection refused''))\<rparr>)
   \<and> PluginFamilies service_no_listing = Inl (Error ''connection refused'')
   \<and> (\<exists>s. AllPlugins service_leaf_fails sched_leaf_fails = Some s \<and>
        main s = MReturned ReturnChan \<and>
        PluginFamilies service_leaf_fails = Inr [\<lparr>ID = 1\<rparr>, \<lparr>ID = 2\<rparr>])"
proof -
  have a: "AllPlugins service_no_listing [Main] =
     Some (AllPlugins_start\<lparr>main := MReturned (ReturnErr (Error ''connection refused''))\<rparr>)"
    by (simp add: AllPlugins_def step_def AllPlugins_start_def service_no_listing_def)
  from AllPlugins_returned_error [OF a]
  have l: "PluginFamilies service_no_listing = Inl (Error ''connection refused'')"
    by simp
  from run_leaf_fails obtain s where
    r: "AllPlugins service_leaf_fails sched_leaf_fails = Some s" and c: "closed (plugChan s)"
    by blast
  have I: "run_inv service_leaf_fails s" using r by (rule inv_AllPlugins)
  have m: "main s = MReturned ReturnChan" using closed_plugChan(5)[OF I c] .
  from AllPlugins_returned_error [OF r] m
  have "\<exists>fams. PluginFamilies service_leaf_fails = Inr fams" by blast
  then have "PluginFamilies service_leaf_fails = Inr [\<lparr>ID = 1\<rparr>, \<lparr>ID = 2\<rparr>]"
    by (simp add: service_leaf_fails_def service_ok_def)
  with a l r m show ?thesis by blast
qed





text \<open>
  C8 calls the size of the worker pool configurable. It is the literal 10 of the source:
  whatever the service replies and however the goroutines are scheduled, a call that has
  returned the channel runs ten workers. No argument, field or reply configures another
  size.
\<close>

theorem AllPlugins_pool_not_configurable:
  "\<not> (\<exists>(n :: int64 nessus) sched s.
        AllPlugins n sched = Some s \<and> main s = MReturned ReturnChan \<and>
        length (workers s) \<noteq> 10)"
proof
  assume "\<exists>(n :: int64 nessus) sched s.
        AllPlugins n sched = Some s \<and> main s = MReturned ReturnChan \<and>
        length (workers s) \<noteq> 10"
  then obtain n :: "int64 nessus" and sched s where
    r: "AllPlugins n sched = Some s" and m: "main s = MReturned ReturnChan" and
    l: "length (workers s) \<noteq> 10"
    by blast
  have "run_inv n s" using r by (rule inv_AllPlugins)
  with m have "length (workers s) = 10" by (simp add: run_inv_def)
  with l show False by simp
qed

text \<open>
  C8, as amended. The pool has the fixed size 10. In every run of \<open>AllPlugins\<close> there are
  at most 10 workers, so at most 10 \<open>PluginDetails\<close> calls are in flight at any moment:
  none before the body has spawned the family goroutines, none at all when the listing
  fails and the body returns the error, \<open>i\<close> when the spawning loop stands at \<open>i\<close>, and
  exactly 10 once the body has returned the channel. A worker has only left its loop
  when \<open>idChan\<close> is closed and empty.
\<close>

theorem AllPlugins_worker_pool:
  assumes "AllPlugins n sched = Some s"
  shows "length (workers s) \<le> 10 \<and> in_flight s \<le> 10
       \<and> (main s = MReturned ReturnChan \<longrightarrow> length (workers s) = 10)
       \<and> (\<forall>err. main s = MReturned (ReturnErr err) \<longrightarrow> workers s = [])
       \<and> (main s = MPluginFamilies \<or> (\<exists>i rest. main s = MSpawnFamilies i rest) \<longrightarrow>
            workers s = [])
       \<and> (\<forall>i. main s = MSpawnWorkers i \<longrightarrow> length (workers s) = i)
       \<and> (main s = MSpawnCoordinator \<longrightarrow> length (workers s) = 10)
       \<and> (\<forall>w \<in> set (workers s). wpc w = WExited \<longrightarrow> closed (idChan s) \<and> buf (idChan s) = [])"
proof -
  have I: "run_inv n s" using assms by (rule inv_AllPlugins)
  then have m: "main_inv n (main s) (length (families s)) (length (workers s)) (coordinator s)"
    by (simp add: run_inv_def)
  then have 1: "length (workers s) \<le> 10"
    by (cases "(n, main s, length (families s), length (workers s), coordinator s)"
        rule: main_inv.cases) auto
  have "in_flight s \<le> length (workers s)" by (simp add: in_flight_def)
  with 1 have 2: "in_flight s \<le> 10" by simp
  from m have 3: "main s = MReturned ReturnChan \<longrightarrow> length (workers s) = 10" by auto
  from m have 4: "\<forall>err. main s = MReturned (ReturnErr err) \<longrightarrow> workers s = []" by auto
  from m have 5: "main s = MPluginFamilies \<or> (\<exists>i rest. main s = MSpawnFamilies i rest) \<longrightarrow>
      workers s = []" by auto
  from m have 6: "\<forall>i. main s = MSpawnWorkers i \<longrightarrow> length (workers s) = i" by auto
  from m have 7: "main s = MSpawnCoordinator \<longrightarrow> length (workers s) = 10" by auto
  have 8: "\<forall>w \<in> set (workers s). wpc w = WExited \<longrightarrow> closed (idChan s) \<and> buf (idChan s) = []"
    using I by (auto simp: run_inv_def workers_inv_def in_set_conv_nth)
  from 1 2 3 4 5 6 7 8 show ?thesis by blast
qed

theorem AllPlugins_worker_pool_witness:
  "(\<exists>s. AllPlugins service_ok (take 45 sched_ok) = Some s \<and>
       main s = MReturned ReturnChan \<and> length (workers s) = 10 \<and> in_flight s = 2)
   \<and> (\<exists>s. AllPlugins service_ok (sched_ok @ [Worker 0]) = Some s \<and>
       wpc (workers s ! 0) = WExited \<and> closed (idChan s) \<and> buf (idChan s) = [])
   \<and> (\<exists>s. AllPlugins service_no_listing [Main] = Some s \<and>
       main s = MReturned (ReturnErr (Error ''connection refused'')) \<and> workers s = [])
   \<and> (\<exists>s. AllPlugins service_ok (replicate 6 Main) = Some s \<and>
       main s = MSpawnWorkers 2 \<and> length (workers s) = 2 \<and> in_flight s \<le> 10)"
proof -
  from run_ok_45 obtain s where
    r: "AllPlugins service_ok (take 45 sched_ok) = Some s" and
    m: "main s = MReturned ReturnChan" "in_flight s = 2"
    by blast
  from AllPlugins_worker_pool [OF r] m r
  have 1: "\<exists>s. AllPlugins service_ok (take 45 sched_ok) = Some s \<and>
       main s = MReturned ReturnChan \<and> length (workers s) = 10 \<and> in_flight s = 2"
    by blast
  from run_ok_exit obtain t where
    r': "AllPlugins service_ok (sched_ok @ [Worker 0]) = Some t" and
    x: "wpc (workers t ! 0) = WExited" "length (workers t) = 10"
    by blast
  from x have "workers t ! 0 \<in> set (workers t)" by simp
  with AllPlugins_worker_pool [OF r'] x r'
  have 2: "\<exists>s. AllPlugins service_ok (sched_ok @ [Worker 0]) = Some s \<and>
       wpc (workers s ! 0) = WExited \<and> closed (idChan s) \<and> buf (idChan s) = []"
    by blast
  have r3: "AllPlugins service_no_listing [Main] =
     Some (AllPlugins_start\<lparr>main := MReturned (ReturnErr (Error ''connection refused''))\<rparr>)"
    by (simp add: AllPlugins_def step_def AllPlugins_start_def service_no_listing_def)
  from AllPlugins_worker_pool [OF r3] r3
  have 3: "\<exists>s. AllPlugins service_no_listing [Main] = Some s \<and>
       main s = MReturned (ReturnErr (Error ''connection refused'')) \<and> workers s = []"
    by simp
  from run_ok_6 obtain u where
    r4: "AllPlugins service_ok (replicate 6 Main) = Some u" and
    y: "main u = MSpawnWorkers 2"
    by blast
  from AllPlugins_worker_pool [OF r4] y r4
  have 4: "\<exists>s. AllPlugins service_ok (replicate 6 Main) = Some s \<and>
       main s = MSpawnWorkers 2 \<and> length (workers s) = 2 \<and> in_flight s \<le> 10"
    by blast
  from 1 2 3 4 show ?thesis by blast
qed

text \<open>
  C9. For every \<open>nessusImpl\<close> whose \<open>authCookie\<close> is the empty string, \<open>Logout\<close> returns
  nil, leaves the client as it was and sends no HTTP request: the only effect is the
  line it logs.
\<close>

theorem Logout_not_logged_in:
  assumes "authCookie n = ''''"
  shows "Logout e n w =
           (None, n, log_Println ''Not logged in, nothing to do to logout...'' w)
         \<and> sent (log_Println ''Not logged in, nothing to do to logout...'' w) = sent w"
  using assms by (simp add: Logout_def log_Println_def)

theorem Logout_not_logged_in_witness:
  "authCookie anonymous_client = '''' \<and>
   Logout offline_env anonymous_client quiet_world =
     (None, anonymous_client,
      \<lparr>sent = [], logged = [LogString ''Not logged in, nothing to do to logout...'']\<rparr>)"
proof -
  have c: "authCookie anonymous_client = ''''" by (simp add: anonymous_client_def)
  show ?thesis
    using c Logout_not_logged_in [OF c, of offline_env quiet_world]
    by (simp add: log_Println_def quiet_world_def)
qed

text \<open>
  C10. \<open>newNessus\<close> called with fingerprint verification enabled, an empty \<open>caCertPath\<close>
  and no fingerprints returns a nil client and a non-nil error, whatever its other
  arguments; so does \<open>NewFingerprintedNessus\<close> given an empty slice.
\<close>

theorem newNessus_fingerprints_empty:
  "newNessus e apiURL' '''' accessKey' secretKey' isUseApiKey ignoreSSLCertsErrors True [] w =
     (Returns (Inl (Error
        ''fingerprint verification enabled, fingerprint must not be empty'')), w)
   \<and> NewFingerprintedNessus e apiURL' [] w =
     (Returns (Inl (Error
        ''fingerprint verification enabled, fingerprint must not be empty'')), w)"
  by (simp add: newNessus_def NewFingerprintedNessus_def)

end
